theory Spec2Isabelle
  imports Main "HOL-Library.Word" "HOL-Library.Monad_Syntax" "HOL-Library.Finite_Map"
begin

section \<open>Go's \<open>math/big\<close> integers on an explicit heap\<close>

text \<open>
  The reward engine works on \<open>*big.Int\<close> values: pointers to mutable integers of
  unbounded size. A pointer is an address, the heap maps every address to the integer
  stored there and \<open>nxt\<close> is the first address that has not been allocated yet.
  Every method \<open>z.Op(x, y)\<close> of \<open>math/big\<close> overwrites its receiver \<open>z\<close> with a
  value computed from the old contents of \<open>x\<close> and \<open>y\<close> (which may alias \<open>z\<close>).
  A run-time panic is the result \<open>None\<close>.
\<close>

type_synonym ptr = nat

record heap =
  store :: "ptr \<Rightarrow> int"
  nxt :: ptr

definition put :: "ptr \<Rightarrow> int \<Rightarrow> heap \<Rightarrow> heap" where
  "put z v h = h\<lparr>store := (store h)(z := v)\<rparr>"

definition NewInt :: "int \<Rightarrow> heap \<Rightarrow> ptr \<times> heap" where
  \<comment> \<open>\<open>big.NewInt(x)\<close>: a fresh integer holding \<open>x\<close>\<close>
  "NewInt x h = (nxt h, \<lparr>store = (store h)(nxt h := x), nxt = Suc (nxt h)\<rparr>)"

definition new_Int :: "heap \<Rightarrow> ptr \<times> heap" where
  \<comment> \<open>\<open>new(big.Int)\<close>: a fresh integer, zero\<close>
  "new_Int h = NewInt 0 h"

definition Int_Set :: "ptr \<Rightarrow> ptr \<Rightarrow> heap \<Rightarrow> heap" where
  "Int_Set z x h = put z (store h x) h"

definition Int_SetUint64 :: "ptr \<Rightarrow> 64 word \<Rightarrow> heap \<Rightarrow> heap" where
  "Int_SetUint64 z x h = put z (uint x) h"

definition Int_Add :: "ptr \<Rightarrow> ptr \<Rightarrow> ptr \<Rightarrow> heap \<Rightarrow> heap" where
  "Int_Add z x y h = put z (store h x + store h y) h"

definition Int_Sub :: "ptr \<Rightarrow> ptr \<Rightarrow> ptr \<Rightarrow> heap \<Rightarrow> heap" where
  "Int_Sub z x y h = put z (store h x - store h y) h"

definition Int_Mul :: "ptr \<Rightarrow> ptr \<Rightarrow> ptr \<Rightarrow> heap \<Rightarrow> heap" where
  "Int_Mul z x y h = put z (store h x * store h y) h"

text \<open>
  \<open>Div\<close> and \<open>Mod\<close> of \<open>math/big\<close> are Euclidean: \<open>x = y * q + m\<close> with
  \<open>0 \<le> m < |y|\<close>, whatever the signs (Go's \<open>Quo\<close> and \<open>Rem\<close> are the truncating
  pair). Both panic on a zero divisor.
\<close>

definition euclid_mod :: "int \<Rightarrow> int \<Rightarrow> int" where
  "euclid_mod x y = x mod \<bar>y\<bar>"

definition euclid_div :: "int \<Rightarrow> int \<Rightarrow> int" where
  "euclid_div x y = (if 0 < y then x div y else - (x div (- y)))"

definition Int_Div :: "ptr \<Rightarrow> ptr \<Rightarrow> ptr \<Rightarrow> heap \<Rightarrow> heap option" where
  "Int_Div z x y h =
     (if store h y = 0 then None else Some (put z (euclid_div (store h x) (store h y)) h))"

definition Int_Mod :: "ptr \<Rightarrow> ptr \<Rightarrow> ptr \<Rightarrow> heap \<Rightarrow> heap option" where
  "Int_Mod z x y h =
     (if store h y = 0 then None else Some (put z (euclid_mod (store h x) (store h y)) h))"

definition Int_Exp :: "ptr \<Rightarrow> ptr \<Rightarrow> ptr \<Rightarrow> heap \<Rightarrow> heap" where
  \<comment> \<open>\<open>z.Exp(x, y, nil)\<close>: \<open>x ** y\<close>, and 1 when \<open>y \<le> 0\<close>\<close>
  "Int_Exp z x y h =
     put z (if store h y \<le> 0 then 1 else store h x ^ nat (store h y)) h"

definition Int_Sign :: "ptr \<Rightarrow> heap \<Rightarrow> int" where
  "Int_Sign x h = sgn (store h x)"

definition Int_Cmp :: "ptr \<Rightarrow> ptr \<Rightarrow> heap \<Rightarrow> int" where
  "Int_Cmp x y h = (if store h x < store h y then - 1 else if store h x = store h y then 0 else 1)"

definition Int_Uint64 :: "ptr \<Rightarrow> heap \<Rightarrow> 64 word" where
  \<comment> \<open>\<open>x.Uint64()\<close> returns \<open>low64(x.abs)\<close>, the low 64 bits of \<open>|x|\<close>: it is \<open>x\<close> itself
      for \<open>0 \<le> x < 2 ^ 64\<close> (where \<open>math/big\<close> defines the result)\<close>
  "Int_Uint64 x h = word_of_int \<bar>store h x\<bar>"

text \<open>
  The truncating quotient (rounded towards zero, Go's \<open>/\<close> and \<open>big.Int.Quo\<close>), with
  which the Euclidean quotients of the reward engine are compared below.
\<close>

definition trunc_quo :: "int \<Rightarrow> int \<Rightarrow> int" where
  "trunc_quo x y = (if (x < 0) = (y < 0) then \<bar>x\<bar> div \<bar>y\<bar> else - (\<bar>x\<bar> div \<bar>y\<bar>))"

subsection \<open>Package-level integers\<close>

text \<open>
  The package-level \<open>*big.Int\<close> variables are allocated before any function runs.
  \<open>big8\<close> and \<open>big32\<close> are declared beside the reward functions,
  \<open>DisinflationRateQuotient\<close> and \<open>DisinflationRateDivisor\<close> in \<open>classic/main.go\<close>.
  \<open>FrontierBlockReward\<close>, \<open>EIP649FBlockReward\<close> and \<open>EIP1234FBlockReward\<close> are
  declared outside the files at hand: their addresses are fixed here, and nothing is
  assumed about the integers stored there.
\<close>

definition big8 :: ptr where "big8 = 0"
definition big32 :: ptr where "big32 = 1"
definition DisinflationRateQuotient :: ptr where "DisinflationRateQuotient = 2"
definition DisinflationRateDivisor :: ptr where "DisinflationRateDivisor = 3"
definition FrontierBlockReward :: ptr where "FrontierBlockReward = 4"
definition EIP649FBlockReward :: ptr where "EIP649FBlockReward = 5"
definition EIP1234FBlockReward :: ptr where "EIP1234FBlockReward = 6"

definition globals_ok :: "heap \<Rightarrow> bool" where
  \<comment> \<open>the package-level integers are allocated and hold their initial values\<close>
  "globals_ok h \<longleftrightarrow>
     7 \<le> nxt h \<and> store h big8 = 8 \<and> store h big32 = 32 \<and>
     store h DisinflationRateQuotient = 4 \<and> store h DisinflationRateDivisor = 5"

section \<open>The reward engine\<close>

text \<open>
  The fork configurator is declared outside the files at hand and is a parameter:
  \<open>IsEnabled\<close> is any predicate of a transition getter and the value of a block
  number; the reward schedule \<open>map[uint64]*big.Int\<close> is given as the sequence in
  which \<open>range\<close> enumerates it (any order, every key once).
\<close>

datatype getter =
  GetEthashEIP1234Transition | GetEthashEIP649Transition | GetEthashECIP1017Transition

record PluginConfigurator =
  IsEnabled :: "getter \<Rightarrow> int \<Rightarrow> bool"
  GetEthashECIP1017EraRounds :: "64 word option"
  GetEthashBlockRewardSchedule :: "(64 word \<times> ptr) list"

record Header =
  Number :: ptr

subsection \<open>\<open>GetBlockEra\<close>\<close>

text \<open>
  \<^verbatim>\<open>
  func GetBlockEra(blockNum, eraLength *big.Int) *big.Int {
      if blockNum.Sign() < 1 {
          return new(big.Int)
      }
      remainder := big.NewInt(0).Mod(big.NewInt(0).Sub(blockNum, big.NewInt(1)), eraLength)
      base := big.NewInt(0).Sub(blockNum, remainder)
      d := big.NewInt(0).Div(base, eraLength)
      dremainder := big.NewInt(0).Mod(d, big.NewInt(1))
      return new(big.Int).Sub(d, dremainder)
  }
  \<close>
  Receivers are allocated before the arguments of a call are evaluated. \<open>Mod\<close> and
  \<open>Div\<close> panic when \<open>eraLength\<close> is zero.
\<close>

definition GetBlockEra :: "ptr \<Rightarrow> ptr \<Rightarrow> heap \<Rightarrow> (ptr \<times> heap) option" where
  "GetBlockEra blockNum eraLength h =
     (if Int_Sign blockNum h < 1 then Some (new_Int h)
      else do {
        let (remainder, h) = NewInt 0 h;
        let (t, h) = NewInt 0 h;
        let (one, h) = NewInt 1 h;
        let h = Int_Sub t blockNum one h;
        h \<leftarrow> Int_Mod remainder t eraLength h;
        let (base, h) = NewInt 0 h;
        let h = Int_Sub base blockNum remainder h;
        let (d, h) = NewInt 0 h;
        h \<leftarrow> Int_Div d base eraLength h;
        let (dremainder, h) = NewInt 0 h;
        let (one', h) = NewInt 1 h;
        h \<leftarrow> Int_Mod dremainder d one' h;
        let (z, h) = new_Int h;
        let h = Int_Sub z d dremainder h;
        Some (z, h)
      })"

subsection \<open>\<open>EthashBlockReward\<close>\<close>

text \<open>
  \<^verbatim>\<open>
  func EthashBlockReward(c *PluginConfigurator, n *big.Int) *big.Int {
      blockReward := FrontierBlockReward
      if c == nil || n == nil {
          return blockReward
      }
      if c.IsEnabled(c.GetEthashEIP1234Transition, n) {
          return EIP1234FBlockReward
      } else if c.IsEnabled(c.GetEthashEIP649Transition, n) {
          return EIP649FBlockReward
      } else if len(c.GetEthashBlockRewardSchedule()) > 0 {
          var lastActivation uint64
          for activation, reward := range c.GetEthashBlockRewardSchedule() {
              if activation <= n.Uint64() { // Is forked
                  if activation >= lastActivation {
                      lastActivation = activation
                      blockReward = reward
                  }
              }
          }
      }
      return blockReward
  }
  \<close>
  \<open>schedule_walk\<close> is the \<open>range\<close> loop over the schedule in its enumeration order, on
  the pair of \<open>lastActivation\<close> and \<open>blockReward\<close>. The function returns a pointer: one
  of the package-level rewards, or a reward of the schedule.
\<close>

fun schedule_walk ::
  "64 word \<Rightarrow> (64 word \<times> ptr) list \<Rightarrow> 64 word \<times> ptr \<Rightarrow> 64 word \<times> ptr" where
  "schedule_walk n [] (lastActivation, blockReward) = (lastActivation, blockReward)"
| "schedule_walk n ((activation, reward) # rest) (lastActivation, blockReward) =
     (if activation \<le> n then
        (if activation \<ge> lastActivation then schedule_walk n rest (activation, reward)
         else schedule_walk n rest (lastActivation, blockReward))
      else schedule_walk n rest (lastActivation, blockReward))"

definition EthashBlockReward :: "PluginConfigurator option \<Rightarrow> ptr option \<Rightarrow> heap \<Rightarrow> ptr" where
  "EthashBlockReward c n h =
     (let blockReward = FrontierBlockReward in
      case (c, n) of
        (Some c, Some n) \<Rightarrow>
          if IsEnabled c GetEthashEIP1234Transition (store h n) then EIP1234FBlockReward
          else if IsEnabled c GetEthashEIP649Transition (store h n) then EIP649FBlockReward
          else if length (GetEthashBlockRewardSchedule c) > 0 then
            snd (schedule_walk (Int_Uint64 n h) (GetEthashBlockRewardSchedule c)
                   (0, blockReward))
          else blockReward
      | _ \<Rightarrow> blockReward)"

subsection \<open>The era path (ECIP-1017)\<close>

text \<open>
  \<^verbatim>\<open>
  func GetBlockWinnerRewardByEra(era *big.Int, blockReward *big.Int) *big.Int {
      if era.Cmp(big.NewInt(0)) == 0 {
          return new(big.Int).Set(blockReward)
      }
      var q, d, r *big.Int = new(big.Int), new(big.Int), new(big.Int)
      q.Exp(DisinflationRateQuotient, era, nil)
      d.Exp(DisinflationRateDivisor, era, nil)
      r.Mul(blockReward, q)
      r.Div(r, d)
      return r
  }
  \<close>
\<close>

definition GetBlockWinnerRewardByEra :: "ptr \<Rightarrow> ptr \<Rightarrow> heap \<Rightarrow> (ptr \<times> heap) option" where
  "GetBlockWinnerRewardByEra era blockReward h =
     (let (zero, h) = NewInt 0 h in
      if Int_Cmp era zero h = 0 then
        (let (z, h) = new_Int h; h = Int_Set z blockReward h in Some (z, h))
      else do {
        let (q, h) = new_Int h;
        let (d, h) = new_Int h;
        let (r, h) = new_Int h;
        let h = Int_Exp q DisinflationRateQuotient era h;
        let h = Int_Exp d DisinflationRateDivisor era h;
        let h = Int_Mul r blockReward q h;
        h \<leftarrow> Int_Div r r d h;
        Some (r, h)
      })"

definition getEraUncleBlockReward :: "ptr \<Rightarrow> ptr \<Rightarrow> heap \<Rightarrow> (ptr \<times> heap) option" where
  "getEraUncleBlockReward era blockReward h = do {
     let (z, h) = new_Int h;
     (w, h) \<leftarrow> GetBlockWinnerRewardByEra era blockReward h;
     h \<leftarrow> Int_Div z w big32 h;
     Some (z, h)
   }"

definition GetBlockUncleRewardByEra ::
  "ptr \<Rightarrow> Header \<Rightarrow> Header \<Rightarrow> ptr \<Rightarrow> heap \<Rightarrow> (ptr \<times> heap) option" where
  "GetBlockUncleRewardByEra era header uncle blockReward h =
     (let (zero, h) = NewInt 0 h in
      if Int_Cmp era zero h = 0 then do {
        let (r, h) = new_Int h;
        let h = Int_Add r (Number uncle) big8 h;
        let h = Int_Sub r r (Number header) h;
        let h = Int_Mul r r blockReward h;
        h \<leftarrow> Int_Div r r big8 h;
        Some (r, h)
      }
      else getEraUncleBlockReward era blockReward h)"

fun winner_uncles_loop ::
  "ptr \<Rightarrow> ptr \<Rightarrow> ptr \<Rightarrow> Header list \<Rightarrow> heap \<Rightarrow> heap option" where
  "winner_uncles_loop era blockReward r [] h = Some h"
| "winner_uncles_loop era blockReward r (uncle # uncles) h = do {
     (e, h) \<leftarrow> getEraUncleBlockReward era blockReward h;
     let h = Int_Add r r e h;
     winner_uncles_loop era blockReward r uncles h
   }"

definition GetBlockWinnerRewardForUnclesByEra ::
  "ptr \<Rightarrow> Header list \<Rightarrow> ptr \<Rightarrow> heap \<Rightarrow> (ptr \<times> heap) option" where
  "GetBlockWinnerRewardForUnclesByEra era uncles blockReward h = do {
     let (r, h) = NewInt 0 h;
     h \<leftarrow> winner_uncles_loop era blockReward r uncles h;
     Some (r, h)
   }"

fun ecip1017_uncles_loop ::
  "ptr \<Rightarrow> Header \<Rightarrow> ptr \<Rightarrow> Header list \<Rightarrow> ptr list \<Rightarrow> heap \<Rightarrow> (ptr list \<times> heap) option" where
  "ecip1017_uncles_loop era header blockReward [] uncleRewards h = Some (uncleRewards, h)"
| "ecip1017_uncles_loop era header blockReward (uncle # uncles) uncleRewards h = do {
     (ur, h) \<leftarrow> GetBlockUncleRewardByEra era header uncle blockReward h;
     ecip1017_uncles_loop era header blockReward uncles (uncleRewards @ [ur]) h
   }"

text \<open>
  \<^verbatim>\<open>
  func ecip1017BlockReward(config *PluginConfigurator, header *types.Header,
          uncles []*types.Header) (*big.Int, []*big.Int) {
      blockReward := FrontierBlockReward
      eraLen := config.GetEthashECIP1017EraRounds()
      era := GetBlockEra(header.Number, new(big.Int).SetUint64(*eraLen))
      wr := GetBlockWinnerRewardByEra(era, blockReward)
      wurs := GetBlockWinnerRewardForUnclesByEra(era, uncles, blockReward)
      wr.Add(wr, wurs)
      uncleRewards := make([]*big.Int, len(uncles))
      for i, uncle := range uncles {
          ur := GetBlockUncleRewardByEra(era, header, uncle, blockReward)
          uncleRewards[i] = ur
      }
      return wr, uncleRewards
  }
  \<close>
  \<open>*eraLen\<close> panics when the configurator has no era length.
\<close>

definition ecip1017BlockReward ::
  "PluginConfigurator \<Rightarrow> Header \<Rightarrow> Header list \<Rightarrow> heap \<Rightarrow> ((ptr \<times> ptr list) \<times> heap) option" where
  "ecip1017BlockReward config header uncles h =
     (let blockReward = FrontierBlockReward in
      case GetEthashECIP1017EraRounds config of
        None \<Rightarrow> None
      | Some eraLen \<Rightarrow> do {
          let (eraLength, h) = new_Int h;
          let h = Int_SetUint64 eraLength eraLen h;
          (era, h) \<leftarrow> GetBlockEra (Number header) eraLength h;
          (wr, h) \<leftarrow> GetBlockWinnerRewardByEra era blockReward h;
          (wurs, h) \<leftarrow> GetBlockWinnerRewardForUnclesByEra era uncles blockReward h;
          let h = Int_Add wr wr wurs h;
          (uncleRewards, h) \<leftarrow> ecip1017_uncles_loop era header blockReward uncles [] h;
          Some ((wr, uncleRewards), h)
        })"

subsection \<open>\<open>GetRewards\<close>\<close>

text \<open>
  \<^verbatim>\<open>
  func GetRewards(config *PluginConfigurator, header *types.Header, uncles []*types.Header)
          (*big.Int, []*big.Int) {
      if config.IsEnabled(config.GetEthashECIP1017Transition, header.Number) {
          return ecip1017BlockReward(config, header, uncles)
      }
      blockReward := EthashBlockReward(config, header.Number)
      uncleRewards := make([]*big.Int, len(uncles))
      reward := new(big.Int).Set(blockReward)
      r := new(big.Int)
      for i, uncle := range uncles {
          r.Add(uncle.Number, big8)
          r.Sub(r, header.Number)
          r.Mul(r, blockReward)
          r.Div(r, big8)
          ur := new(big.Int).Set(r)
          uncleRewards[i] = ur
          r.Div(blockReward, big32)
          reward.Add(reward, r)
      }
      return reward, uncleRewards
  }
  \<close>
  \<open>flat_uncles_loop\<close> is the loop: it fills \<open>uncleRewards\<close> from the front, so the slice
  is modelled by the list of the rewards stored so far.
\<close>

fun flat_uncles_loop ::
  "Header \<Rightarrow> ptr \<Rightarrow> ptr \<Rightarrow> ptr \<Rightarrow> Header list \<Rightarrow> ptr list \<Rightarrow> heap \<Rightarrow> (ptr list \<times> heap) option" where
  "flat_uncles_loop header blockReward reward r [] uncleRewards h = Some (uncleRewards, h)"
| "flat_uncles_loop header blockReward reward r (uncle # uncles) uncleRewards h = do {
     let h = Int_Add r (Number uncle) big8 h;
     let h = Int_Sub r r (Number header) h;
     let h = Int_Mul r r blockReward h;
     h \<leftarrow> Int_Div r r big8 h;
     let (ur, h) = new_Int h;
     let h = Int_Set ur r h;
     let uncleRewards = uncleRewards @ [ur];
     h \<leftarrow> Int_Div r blockReward big32 h;
     let h = Int_Add reward reward r h;
     flat_uncles_loop header blockReward reward r uncles uncleRewards h
   }"

definition GetRewards ::
  "PluginConfigurator \<Rightarrow> Header \<Rightarrow> Header list \<Rightarrow> heap \<Rightarrow> ((ptr \<times> ptr list) \<times> heap) option" where
  "GetRewards config header uncles h =
     (if IsEnabled config GetEthashECIP1017Transition (store h (Number header))
      then ecip1017BlockReward config header uncles h
      else do {
        let blockReward = EthashBlockReward (Some config) (Some (Number header)) h;
        let (reward, h) = new_Int h;
        let h = Int_Set reward blockReward h;
        let (r, h) = new_Int h;
        (uncleRewards, h) \<leftarrow> flat_uncles_loop header blockReward reward r uncles [] h;
        Some ((reward, uncleRewards), h)
      })"

section \<open>Observations, closed forms and example inputs\<close>

text \<open>
  \<open>frame h h'\<close>: the heap \<open>h'\<close> extends \<open>h\<close>, and every integer that was allocated in
  \<open>h\<close> still holds the value it had there.
\<close>

definition frame :: "heap \<Rightarrow> heap \<Rightarrow> bool" where
  "frame h h' \<longleftrightarrow> nxt h \<le> nxt h' \<and> list_all (\<lambda>p. store h' p = store h p) [0..<nxt h]"

text \<open>What a caller reads from the results: the integers behind the returned pointers.\<close>

definition value_of :: "(ptr \<times> heap) option \<Rightarrow> int option" where
  "value_of res = map_option (\<lambda>(p, h'). store h' p) res"

definition rewards_of :: "((ptr \<times> ptr list) \<times> heap) option \<Rightarrow> (int \<times> int list) option" where
  "rewards_of res = map_option (\<lambda>((reward, uncleRewards), h'). (store h' reward, map (store h') uncleRewards)) res"

text \<open>
  Closed forms of what \<open>GetBlockEra\<close>, \<open>GetBlockWinnerRewardByEra\<close> and
  \<open>GetBlockUncleRewardByEra\<close> leave behind their result pointers (\<open>div\<close> and \<open>mod\<close>
  on \<open>int\<close> round towards minus infinity, as \<open>big.Int.Div\<close> and \<open>big.Int.Mod\<close> do for
  a positive divisor). The lemmas \<open>GetBlockEra_value\<close>, \<open>GetBlockWinnerRewardByEra_value\<close>
  and \<open>GetBlockUncleRewardByEra_value\<close> below derive them from the code.
\<close>

definition era_val :: "int \<Rightarrow> int \<Rightarrow> int" where
  "era_val n L = (if n < 1 then 0 else (n - (n - 1) mod L) div L)"

definition winner_val :: "int \<Rightarrow> int \<Rightarrow> int" where
  "winner_val e R = (if e \<le> 0 then R else R * 4 ^ nat e div 5 ^ nat e)"

definition uncle_val :: "int \<Rightarrow> int \<Rightarrow> int \<Rightarrow> int \<Rightarrow> int" where
  "uncle_val e R hN uN = (if e = 0 then (uN + 8 - hN) * R div 8 else winner_val e R div 32)"

text \<open>
  The heap on which \<open>GetRewards\<close> starts its loop on the flat path: \<open>reward\<close> at
  \<open>nxt h\<close>, a copy of the block reward, and the scratch integer \<open>r\<close> behind it.
\<close>

definition flat_start :: "ptr \<Rightarrow> heap \<Rightarrow> heap" where
  "flat_start blockReward h = snd (NewInt 0 (Int_Set (nxt h) blockReward (snd (NewInt 0 h))))"

text \<open>
  The reward schedule as the specification words it: the reward mapped to the greatest
  activation height that is at most the block number \<open>N\<close>, if there is one; and the
  block reward chosen from it, after the EIP-1234 and EIP-649 constants and before the
  Frontier constant.
\<close>

definition schedule_reward :: "(64 word \<times> ptr) list \<Rightarrow> int \<Rightarrow> ptr option" where
  "schedule_reward sched N =
     (let Q = filter (\<lambda>a. uint a \<le> N) (map fst sched)
      in if Q = [] then None else map_of sched (Max (set Q)))"

definition EthashBlockReward_spec :: "PluginConfigurator \<Rightarrow> int \<Rightarrow> ptr" where
  "EthashBlockReward_spec c N =
     (if IsEnabled c GetEthashEIP1234Transition N then EIP1234FBlockReward
      else if IsEnabled c GetEthashEIP649Transition N then EIP649FBlockReward
      else case schedule_reward (GetEthashBlockRewardSchedule c) N of
             Some reward \<Rightarrow> reward
           | None \<Rightarrow> FrontierBlockReward)"


text \<open>
  Example inputs: a heap given by the list of its integers (the package-level ones
  first), a configurator with no transition enabled and one with only ECIP-1017.
\<close>

definition heap_of :: "int list \<Rightarrow> heap" where
  "heap_of xs = \<lparr>store = (\<lambda>p. if p < length xs then xs ! p else 0), nxt = length xs\<rparr>"

definition never_enabled :: "getter \<Rightarrow> int \<Rightarrow> bool" where
  "never_enabled g n = False"

definition ecip1017_enabled :: "getter \<Rightarrow> int \<Rightarrow> bool" where
  "ecip1017_enabled g n = (g = GetEthashECIP1017Transition)"

section \<open>The generic LRU container\<close>

subsection \<open>The recency list\<close>

text \<open>
  \<open>list[T]\<close> is a circular doubly-linked list around the sentinel \<open>root\<close>. List elements
  live on a heap of their own: an element is an address, \<open>elem_next\<close>, \<open>elem_prev\<close> and
  \<open>elem_v\<close> are the fields of the element at an address (\<open>None\<close> is \<open>nil\<close>, and \<open>0\<close> the
  zero value of the key type), \<open>elem_alloc\<close> is the first address that has not been
  allocated. The sentinel is the element at address \<open>root\<close>. Dereferencing \<open>nil\<close>
  panics: the result \<open>None\<close>.
\<close>

type_synonym eptr = nat

record 'k listT =
  elem_next :: "eptr \<Rightarrow> eptr option"
  elem_prev :: "eptr \<Rightarrow> eptr option"
  elem_v :: "eptr \<Rightarrow> 'k"
  elem_alloc :: eptr

definition root :: eptr where "root = 0"

definition list_init :: "'k listT \<Rightarrow> 'k listT" where
  \<comment> \<open>\<open>l.init()\<close>\<close>
  "list_init l =
     (let l = l\<lparr>elem_next := (elem_next l)(root := Some root)\<rparr>
      in l\<lparr>elem_prev := (elem_prev l)(root := Some root)\<rparr>)"

definition newList :: "('k::zero) listT" where
  "newList =
     list_init \<lparr>elem_next = (\<lambda>_. None), elem_prev = (\<lambda>_. None), elem_v = (\<lambda>_. 0), elem_alloc = Suc root\<rparr>"

definition new_listElem :: "('k::zero) listT \<Rightarrow> eptr \<times> 'k listT" where
  \<comment> \<open>\<open>new(listElem[K])\<close>: a fresh element with zero fields\<close>
  "new_listElem l =
     (elem_alloc l,
      l\<lparr>elem_next := (elem_next l)(elem_alloc l := None),
        elem_prev := (elem_prev l)(elem_alloc l := None),
        elem_v := (elem_v l)(elem_alloc l := 0),
        elem_alloc := Suc (elem_alloc l)\<rparr>)"

text \<open>
  \<^verbatim>\<open>
  func (l *list[T]) pushElem(e *listElem[T]) {
      e.prev = &l.root
      e.next = l.root.next
      l.root.next = e
      e.next.prev = e
  }
  func (l *list[T]) moveToFront(e *listElem[T]) {
      e.prev.next = e.next
      e.next.prev = e.prev
      l.pushElem(e)
  }
  func (l *list[T]) remove(e *listElem[T]) {
      e.prev.next = e.next
      e.next.prev = e.prev
      e.next, e.prev = nil, nil
  }
  \<close>
\<close>

definition pushElem :: "eptr \<Rightarrow> 'k listT \<Rightarrow> 'k listT option" where
  "pushElem e l = do {
     let l = l\<lparr>elem_prev := (elem_prev l)(e := Some root)\<rparr>;
     let l = l\<lparr>elem_next := (elem_next l)(e := elem_next l root)\<rparr>;
     let l = l\<lparr>elem_next := (elem_next l)(root := Some e)\<rparr>;
     n \<leftarrow> elem_next l e;
     Some (l\<lparr>elem_prev := (elem_prev l)(n := Some e)\<rparr>)
   }"

definition moveToFront :: "eptr \<Rightarrow> 'k listT \<Rightarrow> 'k listT option" where
  "moveToFront e l = do {
     p \<leftarrow> elem_prev l e;
     let l = l\<lparr>elem_next := (elem_next l)(p := elem_next l e)\<rparr>;
     n \<leftarrow> elem_next l e;
     let l = l\<lparr>elem_prev := (elem_prev l)(n := elem_prev l e)\<rparr>;
     pushElem e l
   }"

definition list_remove :: "eptr \<Rightarrow> 'k listT \<Rightarrow> 'k listT option" where
  \<comment> \<open>\<open>l.remove(e)\<close>\<close>
  "list_remove e l = do {
     p \<leftarrow> elem_prev l e;
     let l = l\<lparr>elem_next := (elem_next l)(p := elem_next l e)\<rparr>;
     n \<leftarrow> elem_next l e;
     let l = l\<lparr>elem_prev := (elem_prev l)(n := elem_prev l e)\<rparr>;
     Some (l\<lparr>elem_next := (elem_next l)(e := None), elem_prev := (elem_prev l)(e := None)\<rparr>)
   }"

definition list_last :: "'k listT \<Rightarrow> eptr option" where
  \<comment> \<open>\<open>l.last()\<close>\<close>
  "list_last l = (let e = elem_prev l root in if e = Some root then None else e)"

definition removeLast :: "'k listT \<Rightarrow> (eptr option \<times> 'k listT) option" where
  "removeLast l =
     (let lastElem = list_last l in
      case lastElem of
        Some e \<Rightarrow> do { l \<leftarrow> list_remove e l; Some (lastElem, l) }
      | None \<Rightarrow> Some (lastElem, l))"

text \<open>
  \<^verbatim>\<open>
  func (l *list[T]) appendTo(slice []T) []T {
      for e := l.root.prev; e != &l.root; e = e.prev {
          slice = append(slice, e.v)
      }
      return slice
  }
  \<close>
  The loop follows \<open>prev\<close> pointers until it meets the sentinel again; on a heap where
  it never does, it does not return, and on \<open>nil\<close> it panics (both \<open>None\<close>).
\<close>

partial_function (option) appendTo_loop :: "'k listT \<Rightarrow> eptr option \<Rightarrow> 'k list \<Rightarrow> 'k list option" where
  "appendTo_loop l e out =
     (if e \<noteq> Some root then
        (case e of
           None \<Rightarrow> None
         | Some a \<Rightarrow> appendTo_loop l (elem_prev l a) (out @ [elem_v l a]))
      else Some out)"

declare appendTo_loop.simps [code]

definition appendTo :: "'k listT \<Rightarrow> 'k list \<Rightarrow> 'k list option" where
  "appendTo l out = appendTo_loop l (elem_prev l root) out"

subsection \<open>\<open>BasicLRU\<close>\<close>

text \<open>
  A \<open>cacheItem\<close> is the pair of its list element and its value, and the map
  \<open>items\<close> a finite map. Where the source returns a value with \<open>ok\<close>, the model
  returns an optional value.
\<close>

record ('k, 'v) BasicLRU =
  list :: "'k listT"
  items :: "('k, eptr \<times> 'v) fmap"
  cap :: int

definition NewBasicLRU :: "int \<Rightarrow> ('k::zero, 'v) BasicLRU" where
  "NewBasicLRU capacity =
     (let capacity = (if capacity \<le> 0 then 1 else capacity)
      in \<lparr>list = newList, items = fmempty, cap = capacity\<rparr>)"

definition Len :: "('k, 'v) BasicLRU \<Rightarrow> int" where
  "Len c = int (fcard (fmdom (items c)))"

text \<open>
  \<^verbatim>\<open>
  func (c *BasicLRU[K, V]) Add(key K, value V) (evicted bool) {
      item, ok := c.items[key]
      if ok {
          item.value = value
          c.items[key] = item
          c.list.moveToFront(item.elem)
          return false
      }
      var elem *listElem[K]
      if c.Len() >= c.cap {
          elem = c.list.removeLast()
          delete(c.items, elem.v)
          evicted = true
      } else {
          elem = new(listElem[K])
      }
      elem.v = key
      c.items[key] = cacheItem[K, V]{elem, value}
      c.list.pushElem(elem)
      return evicted
  }
  \<close>
\<close>

definition Add :: "'k \<Rightarrow> 'v \<Rightarrow> ('k::zero, 'v) BasicLRU \<Rightarrow> (bool \<times> ('k, 'v) BasicLRU) option" where
  "Add key v c =
     (case fmlookup (items c) key of
        Some (elem, old) \<Rightarrow> do {
          let c = c\<lparr>items := fmupd key (elem, v) (items c)\<rparr>;
          l \<leftarrow> moveToFront elem (list c);
          Some (False, c\<lparr>list := l\<rparr>)
        }
      | None \<Rightarrow> do {
          (elem, evicted, c) \<leftarrow>
            (if Len c \<ge> cap c then do {
               (lastElem, l) \<leftarrow> removeLast (list c);
               elem \<leftarrow> lastElem;
               Some (elem, True, c\<lparr>list := l, items := fmdrop (elem_v l elem) (items c)\<rparr>)
             }
             else (let (elem, l) = new_listElem (list c) in Some (elem, False, c\<lparr>list := l\<rparr>)));
          let c = c\<lparr>list := (list c)\<lparr>elem_v := (elem_v (list c))(elem := key)\<rparr>\<rparr>;
          let c = c\<lparr>items := fmupd key (elem, v) (items c)\<rparr>;
          l \<leftarrow> pushElem elem (list c);
          Some (evicted, c\<lparr>list := l\<rparr>)
        })"

definition Contains :: "'k \<Rightarrow> ('k, 'v) BasicLRU \<Rightarrow> bool" where
  "Contains key c = (fmlookup (items c) key \<noteq> None)"

definition Get :: "'k \<Rightarrow> ('k, 'v) BasicLRU \<Rightarrow> ('v option \<times> ('k, 'v) BasicLRU) option" where
  "Get key c =
     (case fmlookup (items c) key of
        None \<Rightarrow> Some (None, c)
      | Some (elem, v) \<Rightarrow> do {
          l \<leftarrow> moveToFront elem (list c);
          Some (Some v, c\<lparr>list := l\<rparr>)
        })"

definition GetOldest :: "('k, 'v) BasicLRU \<Rightarrow> ('k \<times> 'v option) option" where
  "GetOldest c =
     (case list_last (list c) of
        None \<Rightarrow> None
      | Some lastElem \<Rightarrow>
          (let key = elem_v (list c) lastElem in Some (key, map_option snd (fmlookup (items c) key))))"

definition Peek :: "'k \<Rightarrow> ('k, 'v) BasicLRU \<Rightarrow> 'v option" where
  "Peek key c = map_option snd (fmlookup (items c) key)"

definition Purge :: "('k, 'v) BasicLRU \<Rightarrow> ('k, 'v) BasicLRU" where
  "Purge c = (let c = c\<lparr>list := list_init (list c)\<rparr> in c\<lparr>items := fmempty\<rparr>)"

definition Remove :: "'k \<Rightarrow> ('k, 'v) BasicLRU \<Rightarrow> (bool \<times> ('k, 'v) BasicLRU) option" where
  "Remove key c =
     (case fmlookup (items c) key of
        Some (elem, v) \<Rightarrow> do {
          let c = c\<lparr>items := fmdrop key (items c)\<rparr>;
          l \<leftarrow> list_remove elem (list c);
          Some (True, c\<lparr>list := l\<rparr>)
        }
      | None \<Rightarrow> Some (False, c))"

definition RemoveOldest ::
  "('k, 'v) BasicLRU \<Rightarrow> (('k \<times> 'v option) option \<times> ('k, 'v) BasicLRU) option" where
  "RemoveOldest c =
     (case list_last (list c) of
        None \<Rightarrow> Some (None, c)
      | Some lastElem \<Rightarrow> do {
          let key = elem_v (list c) lastElem;
          let item = fmlookup (items c) key;
          let c = c\<lparr>items := fmdrop key (items c)\<rparr>;
          l \<leftarrow> list_remove lastElem (list c);
          Some (Some (key, map_option snd item), c\<lparr>list := l\<rparr>)
        })"

definition Keys :: "('k, 'v) BasicLRU \<Rightarrow> 'k list option" where
  "Keys c = appendTo (list c) []"

text \<open>The operations that change the container, and a run of them from a new container.\<close>

datatype ('k, 'v) lru_op =
  Op_Add 'k 'v | Op_Get 'k | Op_Peek 'k | Op_Remove 'k | Op_RemoveOldest | Op_Purge

fun lru_step :: "('k::zero, 'v) lru_op \<Rightarrow> ('k, 'v) BasicLRU \<Rightarrow> ('k, 'v) BasicLRU option" where
  "lru_step (Op_Add key v) c = map_option snd (Add key v c)"
| "lru_step (Op_Get key) c = map_option snd (Get key c)"
| "lru_step (Op_Peek key) c = Some c"
| "lru_step (Op_Remove key) c = map_option snd (Remove key c)"
| "lru_step Op_RemoveOldest c = map_option snd (RemoveOldest c)"
| "lru_step Op_Purge c = Some (Purge c)"

fun lru_run :: "('k::zero, 'v) lru_op list \<Rightarrow> ('k, 'v) BasicLRU \<Rightarrow> ('k, 'v) BasicLRU option" where
  "lru_run [] c = Some c"
| "lru_run (x # xs) c = (case lru_step x c of None \<Rightarrow> None | Some c' \<Rightarrow> lru_run xs c')"

text \<open>
  The recency order as the specification words it (4.1), most recently used key first:
  \<open>Add\<close> of a present key and a hit of \<open>Get\<close> move the key to the front; \<open>Add\<close> of an
  absent key puts it at the front, after the least recently used key (the last one) has
  been evicted when the container is at capacity; \<open>Remove\<close> takes the key out,
  \<open>RemoveOldest\<close> the last key, \<open>Purge\<close> all of them; \<open>Peek\<close> changes nothing.
\<close>

fun recency_step :: "int \<Rightarrow> ('k, 'v) lru_op \<Rightarrow> 'k list \<Rightarrow> 'k list" where
  "recency_step capacity (Op_Add key v) ks =
     (if key \<in> set ks then key # remove1 key ks
      else if int (length ks) \<ge> capacity then key # butlast ks
      else key # ks)"
| "recency_step capacity (Op_Get key) ks = (if key \<in> set ks then key # remove1 key ks else ks)"
| "recency_step capacity (Op_Peek key) ks = ks"
| "recency_step capacity (Op_Remove key) ks = remove1 key ks"
| "recency_step capacity Op_RemoveOldest ks = butlast ks"
| "recency_step capacity Op_Purge ks = []"

fun recency :: "int \<Rightarrow> ('k, 'v) lru_op list \<Rightarrow> 'k list \<Rightarrow> 'k list" where
  "recency capacity [] ks = ks"
| "recency capacity (x # xs) ks = recency capacity xs (recency_step capacity x ks)"

text \<open>
  Well-formedness of the recency list, for the proofs: \<open>dll l xs\<close> says that, from the
  sentinel, the \<open>next\<close> pointers run through the elements \<open>xs\<close> (front first) and back
  to the sentinel, and the \<open>prev\<close> pointers run through them in the opposite order.
\<close>

fun links :: "(eptr \<Rightarrow> eptr option) \<Rightarrow> eptr list \<Rightarrow> bool" where
  "links f (a # b # r) = (f a = Some b \<and> links f (b # r))"
| "links f [a] = True"
| "links f [] = True"

definition dll :: "'k listT \<Rightarrow> eptr list \<Rightarrow> bool" where
  "dll l xs \<longleftrightarrow>
     distinct (root # xs) \<and>
     links (elem_next l) (root # xs @ [root]) \<and>
     links (elem_prev l) (root # rev xs @ [root])"

text \<open>
  The invariant of the container over the keys \<open>ks\<close> in recency order (most recent
  first): the list holds one element per key, in that order; the map holds exactly these
  keys, each with its list element; and there are at most \<open>cap\<close> of them.
\<close>

definition lru_inv :: "('k, 'v) BasicLRU \<Rightarrow> 'k list \<Rightarrow> bool" where
  "lru_inv c ks \<longleftrightarrow>
     (\<exists>xs. dll (list c) xs \<and> root < elem_alloc (list c) \<and>
        (\<forall>x\<in>set xs. x < elem_alloc (list c)) \<and>
        map (elem_v (list c)) xs = ks \<and> distinct ks \<and>
        fmdom' (items c) = set ks \<and>
        (\<forall>x\<in>set xs. \<exists>v. fmlookup (items c) (elem_v (list c) x) = Some (x, v)) \<and>
        1 \<le> cap c \<and> int (length ks) \<le> cap c)"

section \<open>Lemmas about the reward engine\<close>

lemmas big_ops = NewInt_def new_Int_def put_def Int_Set_def Int_SetUint64_def Int_Add_def Int_Sub_def
  Int_Mul_def Int_Div_def Int_Mod_def Int_Exp_def Int_Sign_def Int_Cmp_def
lemmas globals = big8_def big32_def DisinflationRateQuotient_def DisinflationRateDivisor_def
  FrontierBlockReward_def EIP649FBlockReward_def EIP1234FBlockReward_def

lemma frame_iff: "frame h h' \<longleftrightarrow> nxt h \<le> nxt h' \<and> (\<forall>p<nxt h. store h' p = store h p)"
  by (auto simp: frame_def list_all_iff)

lemma frame_refl: "frame h h"
  by (simp add: frame_iff)

lemma frame_trans: "frame h h1 \<Longrightarrow> frame h1 h2 \<Longrightarrow> frame h h2"
  by (auto simp: frame_iff)

lemma frame_NewInt: "frame h (snd (NewInt x h))"
  by (simp add: frame_iff NewInt_def)

lemma frame_put: "frame h h1 \<Longrightarrow> nxt h \<le> z \<Longrightarrow> frame h (put z v h1)"
  by (auto simp: frame_iff put_def)

lemma globals_ok_frame: "globals_ok h \<Longrightarrow> frame h h' \<Longrightarrow> globals_ok h'"
  by (auto simp: globals_ok_def frame_iff globals)

lemma GetBlockEra_frame:
  assumes "GetBlockEra blockNum eraLength h = Some (z, h')" "blockNum < nxt h" "eraLength < nxt h"
  shows "frame h h' \<and> nxt h \<le> z \<and> z < nxt h'"
  using assms
  by (auto simp: GetBlockEra_def big_ops frame_iff Let_def split: if_splits)

lemma GetBlockEra_value:
  assumes "blockNum < nxt h" "eraLength < nxt h" "0 < store h eraLength"
  shows "\<exists>z h'. GetBlockEra blockNum eraLength h = Some (z, h')
      \<and> store h' z = era_val (store h blockNum) (store h eraLength)"
  using assms
  by (auto simp: GetBlockEra_def big_ops era_val_def euclid_mod_def euclid_div_def sgn_if)

lemma GetBlockWinnerRewardByEra_frame:
  assumes "GetBlockWinnerRewardByEra era blockReward h = Some (w, h')" "era < nxt h" "blockReward < nxt h" "7 \<le> nxt h"
  shows "frame h h' \<and> nxt h \<le> w \<and> w < nxt h'"
  using assms
  by (auto simp: GetBlockWinnerRewardByEra_def big_ops globals frame_iff Let_def split: if_splits)

lemma GetBlockWinnerRewardByEra_value:
  assumes "globals_ok h" "era < nxt h" "blockReward < nxt h"
  shows "\<exists>w h'. GetBlockWinnerRewardByEra era blockReward h = Some (w, h')
      \<and> store h' w = winner_val (store h era) (store h blockReward)"
  using assms
  by (auto simp: GetBlockWinnerRewardByEra_def globals_ok_def big_ops globals winner_val_def euclid_div_def)

lemma Int_Div_Some:
  "Int_Div z x y h = Some h' \<longleftrightarrow> store h y \<noteq> 0 \<and> h' = put z (euclid_div (store h x) (store h y)) h"
  by (auto simp: Int_Div_def)

lemma nxt_put [simp]: "nxt (put z v h) = nxt h"
  by (simp add: put_def)

lemma store_put [simp]: "store (put z v h) p = (if p = z then v else store h p)"
  by (simp add: put_def)

lemma NewInt_eq: "NewInt x h = (z, h1) \<Longrightarrow> z = nxt h \<and> nxt h1 = Suc (nxt h) \<and> frame h h1 \<and> store h1 z = x"
  by (auto simp: NewInt_def frame_iff)

lemma frame_store: "frame h h' \<Longrightarrow> p < nxt h \<Longrightarrow> store h' p = store h p"
  by (simp add: frame_iff)

lemma frame_nxt: "frame h h' \<Longrightarrow> nxt h \<le> nxt h'"
  by (simp add: frame_iff)

lemma getEraUncleBlockReward_frame:
  assumes "getEraUncleBlockReward era blockReward h = Some (z, h')"
    and "era < nxt h" "blockReward < nxt h" "7 \<le> nxt h"
  shows "frame h h' \<and> nxt h \<le> z \<and> z < nxt h'"
proof -
  obtain z0 h0 where n: "NewInt 0 h = (z0, h0)" by force
  note n0 = NewInt_eq[OF n]
  from assms(1) n obtain w h1 where
    w: "GetBlockWinnerRewardByEra era blockReward h0 = Some (w, h1)"
    and d: "Int_Div z0 w big32 h1 = Some h'" and z: "z = z0"
    by (auto simp: getEraUncleBlockReward_def new_Int_def bind_eq_Some_conv)
  have "frame h0 h1 \<and> nxt h0 \<le> w \<and> w < nxt h1"
    using w n0 assms(2-) by (intro GetBlockWinnerRewardByEra_frame) auto
  with n0 have "frame h h1" "nxt h < nxt h1" by (auto intro: frame_trans)
  with d z n0 show ?thesis by (auto simp: Int_Div_Some intro: frame_put)
qed

lemma getEraUncleBlockReward_value:
  assumes "globals_ok h" "era < nxt h" "blockReward < nxt h"
  shows "\<exists>z h'. getEraUncleBlockReward era blockReward h = Some (z, h')
      \<and> store h' z = winner_val (store h era) (store h blockReward) div 32"
proof -
  obtain z0 h0 where n: "NewInt 0 h = (z0, h0)" by force
  note n0 = NewInt_eq[OF n]
  have ok0: "globals_ok h0" using assms(1) n0 by (auto intro: globals_ok_frame)
  have a0: "era < nxt h0" "blockReward < nxt h0" using assms n0 by auto
  from GetBlockWinnerRewardByEra_value[OF ok0 a0] obtain w h1 where
    w: "GetBlockWinnerRewardByEra era blockReward h0 = Some (w, h1)"
    and v: "store h1 w = winner_val (store h0 era) (store h0 blockReward)" by blast
  have "7 \<le> nxt h0" using ok0 by (simp add: globals_ok_def)
  from GetBlockWinnerRewardByEra_frame[OF w a0 this] have f1: "frame h0 h1" "nxt h0 \<le> w" by simp_all
  have ok1: "globals_ok h1" using ok0 f1 by (auto intro: globals_ok_frame)
  have "store h0 era = store h era" "store h0 blockReward = store h blockReward"
    using assms n0 by (auto simp: frame_store)
  with v w ok1 n n0 f1 show ?thesis
    by (auto simp: getEraUncleBlockReward_def new_Int_def Int_Div_def put_def globals_ok_def euclid_div_def)
qed

lemma GetBlockUncleRewardByEra_frame:
  assumes "GetBlockUncleRewardByEra era header uncle blockReward h = Some (z, h')"
    and "era < nxt h" "blockReward < nxt h" "7 \<le> nxt h" "Number header < nxt h" "Number uncle < nxt h"
  shows "frame h h' \<and> nxt h \<le> z \<and> z < nxt h'"
proof -
  obtain z0 h0 where n: "NewInt 0 h = (z0, h0)" by force
  note n0 = NewInt_eq[OF n]
  show ?thesis
  proof (cases "Int_Cmp era z0 h0 = 0")
    case True
    with assms n show ?thesis
      by (auto simp: GetBlockUncleRewardByEra_def big_ops globals frame_iff Let_def split: if_splits)
  next
    case False
    with assms(1) n have "getEraUncleBlockReward era blockReward h0 = Some (z, h')"
      by (simp add: GetBlockUncleRewardByEra_def)
    then have "frame h0 h' \<and> nxt h0 \<le> z \<and> z < nxt h'"
      using n0 assms(2-) by (intro getEraUncleBlockReward_frame) auto
    with n0 show ?thesis by (auto intro: frame_trans)
  qed
qed

lemma GetBlockUncleRewardByEra_value:
  assumes "globals_ok h" "era < nxt h" "blockReward < nxt h" "Number header < nxt h" "Number uncle < nxt h"
  shows "\<exists>z h'. GetBlockUncleRewardByEra era header uncle blockReward h = Some (z, h')
      \<and> store h' z = uncle_val (store h era) (store h blockReward) (store h (Number header)) (store h (Number uncle))"
proof -
  obtain z0 h0 where n: "NewInt 0 h = (z0, h0)" by force
  note n0 = NewInt_eq[OF n]
  have ok0: "globals_ok h0" using assms(1) n0 by (auto intro: globals_ok_frame)
  have st: "store h0 era = store h era" "store h0 blockReward = store h blockReward"
    using assms n0 by (auto simp: frame_store)
  show ?thesis
  proof (cases "store h era = 0")
    case True
    with assms n show ?thesis
      by (auto simp: GetBlockUncleRewardByEra_def big_ops globals globals_ok_def uncle_val_def euclid_div_def)
  next
    case False
    then have c: "Int_Cmp era z0 h0 \<noteq> 0" using n0 st by (auto simp: Int_Cmp_def)
    have "era < nxt h0" "blockReward < nxt h0" using assms n0 by auto
    from getEraUncleBlockReward_value[OF ok0 this] c n st False show ?thesis
      by (auto simp: GetBlockUncleRewardByEra_def uncle_val_def)
  qed
qed

lemma winner_uncles_loop_frame:
  assumes "winner_uncles_loop era blockReward r uncles h = Some h'"
    and "era < nxt h" "blockReward < nxt h" "7 \<le> nxt h" "r < nxt h"
  shows "nxt h \<le> nxt h' \<and> (\<forall>p<nxt h. p \<noteq> r \<longrightarrow> store h' p = store h p)"
  using assms
proof (induction uncles arbitrary: h)
  case Nil
  then show ?case by simp
next
  case (Cons uncle uncles)
  from Cons.prems(1) obtain e h1 where
    e: "getEraUncleBlockReward era blockReward h = Some (e, h1)"
    and l: "winner_uncles_loop era blockReward r uncles (Int_Add r r e h1) = Some h'"
    by (auto simp: bind_eq_Some_conv)
  from getEraUncleBlockReward_frame[OF e Cons.prems(2-4)]
  have f: "frame h h1" "nxt h \<le> e" "e < nxt h1" by simp_all
  let ?h2 = "Int_Add r r e h1"
  have n2: "nxt ?h2 = nxt h1" by (simp add: Int_Add_def)
  have "nxt ?h2 \<le> nxt h' \<and> (\<forall>p<nxt ?h2. p \<noteq> r \<longrightarrow> store h' p = store ?h2 p)"
    using l Cons.prems(2-) f n2 by (intro Cons.IH) (auto simp: frame_iff)
  with f n2 show ?case by (auto simp: frame_iff Int_Add_def)
qed

lemma winner_uncles_loop_value:
  assumes "globals_ok h" "era < nxt h" "blockReward < nxt h" "r < nxt h"
    and "r \<noteq> era" "r \<noteq> blockReward" "7 \<le> r"
  shows "\<exists>h'. winner_uncles_loop era blockReward r uncles h = Some h'
      \<and> store h' r = store h r + int (length uncles) * (winner_val (store h era) (store h blockReward) div 32)"
  using assms
proof (induction uncles arbitrary: h)
  case Nil
  then show ?case by simp
next
  case (Cons uncle uncles)
  from getEraUncleBlockReward_value[OF Cons.prems(1-3)] obtain e h1 where
    e: "getEraUncleBlockReward era blockReward h = Some (e, h1)"
    and v: "store h1 e = winner_val (store h era) (store h blockReward) div 32" by blast
  have g7: "7 \<le> nxt h" using Cons.prems(1) by (simp add: globals_ok_def)
  from getEraUncleBlockReward_frame[OF e Cons.prems(2,3) g7]
  have f: "frame h h1" "nxt h \<le> e" "e < nxt h1" by simp_all
  let ?h2 = "Int_Add r r e h1"
  have ok1: "globals_ok h1" using Cons.prems(1) f by (auto intro: globals_ok_frame)
  have ok2: "globals_ok ?h2" using ok1 Cons.prems(7)
    by (auto simp: globals_ok_def Int_Add_def globals)
  have a2: "era < nxt ?h2" "blockReward < nxt ?h2" "r < nxt ?h2"
    using Cons.prems f by (auto simp: Int_Add_def frame_iff)
  from Cons.IH[OF ok2 a2 Cons.prems(5-7)] obtain h' where
    l: "winner_uncles_loop era blockReward r uncles ?h2 = Some h'"
    and v': "store h' r = store ?h2 r + int (length uncles) * (winner_val (store ?h2 era) (store ?h2 blockReward) div 32)"
    by blast
  have s2: "store ?h2 era = store h era" "store ?h2 blockReward = store h blockReward"
    "store ?h2 r = store h r + winner_val (store h era) (store h blockReward) div 32"
    using Cons.prems f v by (auto simp: Int_Add_def frame_iff)
  from e l v' s2 show ?case by (simp add: algebra_simps)
qed

lemma GetBlockWinnerRewardForUnclesByEra_frame:
  assumes "GetBlockWinnerRewardForUnclesByEra era uncles blockReward h = Some (r, h')"
    and "era < nxt h" "blockReward < nxt h" "7 \<le> nxt h"
  shows "frame h h' \<and> nxt h \<le> r \<and> r < nxt h'"
proof -
  obtain r0 h0 where n: "NewInt 0 h = (r0, h0)" by force
  note n0 = NewInt_eq[OF n]
  from assms(1) n have l: "winner_uncles_loop era blockReward r0 uncles h0 = Some h'" and r: "r = r0"
    by (auto simp: GetBlockWinnerRewardForUnclesByEra_def bind_eq_Some_conv)
  have "nxt h0 \<le> nxt h' \<and> (\<forall>p<nxt h0. p \<noteq> r0 \<longrightarrow> store h' p = store h0 p)"
    using l assms(2-) n0 by (intro winner_uncles_loop_frame) auto
  with n0 r show ?thesis by (auto simp: frame_iff)
qed

lemma GetBlockWinnerRewardForUnclesByEra_value:
  assumes "globals_ok h" "era < nxt h" "blockReward < nxt h"
  shows "\<exists>r h'. GetBlockWinnerRewardForUnclesByEra era uncles blockReward h = Some (r, h')
      \<and> store h' r = int (length uncles) * (winner_val (store h era) (store h blockReward) div 32)"
proof -
  obtain r0 h0 where n: "NewInt 0 h = (r0, h0)" by force
  note n0 = NewInt_eq[OF n]
  have g7: "7 \<le> nxt h" using assms(1) by (simp add: globals_ok_def)
  have ok0: "globals_ok h0" using assms(1) n0 by (auto intro: globals_ok_frame)
  have "\<exists>h'. winner_uncles_loop era blockReward r0 uncles h0 = Some h'
      \<and> store h' r0 = store h0 r0 + int (length uncles) * (winner_val (store h0 era) (store h0 blockReward) div 32)"
    using ok0 assms n0 g7 by (intro winner_uncles_loop_value) auto
  moreover have "store h0 era = store h era" "store h0 blockReward = store h blockReward"
    using assms n0 by (auto simp: frame_store)
  ultimately show ?thesis using n n0
    by (auto simp: GetBlockWinnerRewardForUnclesByEra_def)
qed

lemma ecip1017_uncles_loop_frame:
  assumes "ecip1017_uncles_loop era header blockReward uncles uncleRewards h = Some (res, h')"
    and "era < nxt h" "blockReward < nxt h" "7 \<le> nxt h" "Number header < nxt h"
    and "\<forall>u\<in>set uncles. Number u < nxt h"
  shows "frame h h' \<and> (\<exists>new. res = uncleRewards @ new \<and> length new = length uncles
      \<and> (\<forall>p\<in>set new. nxt h \<le> p \<and> p < nxt h'))"
  using assms
proof (induction uncles arbitrary: h uncleRewards)
  case Nil
  then show ?case by (simp add: frame_refl)
next
  case (Cons uncle uncles)
  from Cons.prems(1) obtain ur h1 where
    u: "GetBlockUncleRewardByEra era header uncle blockReward h = Some (ur, h1)"
    and l: "ecip1017_uncles_loop era header blockReward uncles (uncleRewards @ [ur]) h1 = Some (res, h')"
    by (auto simp: bind_eq_Some_conv)
  have f: "frame h h1 \<and> nxt h \<le> ur \<and> ur < nxt h1"
    using GetBlockUncleRewardByEra_frame[OF u] Cons.prems(2-) by auto
  then have le: "nxt h \<le> nxt h1" by (simp add: frame_iff)
  have "frame h1 h' \<and> (\<exists>new. res = (uncleRewards @ [ur]) @ new \<and> length new = length uncles
      \<and> (\<forall>p\<in>set new. nxt h1 \<le> p \<and> p < nxt h'))"
    using l Cons.prems(2-) le by (intro Cons.IH) auto
  then obtain new where f1: "frame h1 h'" and r: "res = (uncleRewards @ [ur]) @ new"
    and n: "length new = length uncles" "\<forall>p\<in>set new. nxt h1 \<le> p \<and> p < nxt h'" by blast
  have "nxt h1 \<le> nxt h'" using f1 by (simp add: frame_iff)
  with f f1 r n le show ?case
    by (intro conjI exI[of _ "ur # new"]) (auto intro: frame_trans)
qed

lemma ecip1017_uncles_loop_value:
  assumes "globals_ok h" "era < nxt h" "blockReward < nxt h" "Number header < nxt h"
    and "\<forall>u\<in>set uncles. Number u < nxt h"
  shows "\<exists>new h'. ecip1017_uncles_loop era header blockReward uncles uncleRewards h = Some (uncleRewards @ new, h')
      \<and> map (store h') new = map (\<lambda>u. uncle_val (store h era) (store h blockReward)
            (store h (Number header)) (store h (Number u))) uncles"
  using assms
proof (induction uncles arbitrary: h uncleRewards)
  case Nil
  then show ?case by simp
next
  case (Cons uncle uncles)
  have g7: "7 \<le> nxt h" using Cons.prems(1) by (simp add: globals_ok_def)
  have "\<exists>z h'. GetBlockUncleRewardByEra era header uncle blockReward h = Some (z, h')
      \<and> store h' z = uncle_val (store h era) (store h blockReward) (store h (Number header)) (store h (Number uncle))"
    using Cons.prems by (intro GetBlockUncleRewardByEra_value) auto
  then obtain ur h1 where
    u: "GetBlockUncleRewardByEra era header uncle blockReward h = Some (ur, h1)"
    and v: "store h1 ur = uncle_val (store h era) (store h blockReward) (store h (Number header)) (store h (Number uncle))"
    by blast
  have f: "frame h h1 \<and> nxt h \<le> ur \<and> ur < nxt h1"
    using GetBlockUncleRewardByEra_frame[OF u] Cons.prems(2-) g7 by auto
  then have le: "nxt h \<le> nxt h1" by (simp add: frame_iff)
  have ok1: "globals_ok h1" using Cons.prems(1) f by (auto intro: globals_ok_frame)
  have "\<exists>new h'. ecip1017_uncles_loop era header blockReward uncles (uncleRewards @ [ur]) h1 = Some ((uncleRewards @ [ur]) @ new, h')
      \<and> map (store h') new = map (\<lambda>u. uncle_val (store h1 era) (store h1 blockReward)
            (store h1 (Number header)) (store h1 (Number u))) uncles"
    using ok1 Cons.prems(2-) le by (intro Cons.IH) auto
  then obtain new h' where
    l: "ecip1017_uncles_loop era header blockReward uncles (uncleRewards @ [ur]) h1 = Some ((uncleRewards @ [ur]) @ new, h')"
    and vs: "map (store h') new = map (\<lambda>u. uncle_val (store h1 era) (store h1 blockReward)
            (store h1 (Number header)) (store h1 (Number u))) uncles" by blast
  have "\<forall>u\<in>set uncles. Number u < nxt h1" using Cons.prems(5) le by auto
  then have f1: "frame h1 h'"
    using Cons.prems(2-4) le g7 ecip1017_uncles_loop_frame[OF l] by auto
  have s1: "store h1 era = store h era" "store h1 blockReward = store h blockReward"
    "store h1 (Number header) = store h (Number header)"
    "\<forall>u\<in>set uncles. store h1 (Number u) = store h (Number u)"
    using f Cons.prems by (auto simp: frame_iff)
  have "store h' ur = store h1 ur" using f f1 by (auto simp: frame_iff)
  with u l v vs s1 show ?case
    by (intro exI[of _ "ur # new"] exI[of _ h']) (auto simp: bind_eq_Some_conv)
qed

lemma ecip1017BlockReward_steps:
  assumes "ecip1017BlockReward config header uncles h = Some ((wr, urs), h')"
  shows "\<exists>eraLen eraLength h0 era h2 h3 wurs h4.
    GetEthashECIP1017EraRounds config = Some eraLen \<and>
    NewInt 0 h = (eraLength, h0) \<and>
    GetBlockEra (Number header) eraLength (put eraLength (uint eraLen) h0) = Some (era, h2) \<and>
    GetBlockWinnerRewardByEra era FrontierBlockReward h2 = Some (wr, h3) \<and>
    GetBlockWinnerRewardForUnclesByEra era uncles FrontierBlockReward h3 = Some (wurs, h4) \<and>
    ecip1017_uncles_loop era header FrontierBlockReward uncles []
       (put wr (store h4 wr + store h4 wurs) h4) = Some (urs, h')"
  using assms
  by (auto simp: ecip1017BlockReward_def new_Int_def Int_SetUint64_def Int_Add_def
      bind_eq_Some_conv Let_def split: option.splits prod.splits)

lemma ecip1017BlockReward_frame:
  assumes run: "ecip1017BlockReward config header uncles h = Some ((wr, urs), h')"
    and al: "7 \<le> nxt h" "Number header < nxt h" "\<forall>u\<in>set uncles. Number u < nxt h"
  shows "frame h h' \<and> nxt h \<le> wr \<and> wr < nxt h' \<and> (\<forall>p\<in>set urs. nxt h \<le> p \<and> p < nxt h')"
proof -
  obtain eraLen eraLength h0 era h2 h3 wurs h4 where
    "GetEthashECIP1017EraRounds config = Some eraLen"
    and n: "NewInt 0 h = (eraLength, h0)"
    and e: "GetBlockEra (Number header) eraLength (put eraLength (uint eraLen) h0) = Some (era, h2)"
    and w: "GetBlockWinnerRewardByEra era FrontierBlockReward h2 = Some (wr, h3)"
    and u: "GetBlockWinnerRewardForUnclesByEra era uncles FrontierBlockReward h3 = Some (wurs, h4)"
    and l: "ecip1017_uncles_loop era header FrontierBlockReward uncles []
       (put wr (store h4 wr + store h4 wurs) h4) = Some (urs, h')"
    using ecip1017BlockReward_steps[OF run] by blast
  let ?h1 = "put eraLength (uint eraLen) h0" and ?h5 = "put wr (store h4 wr + store h4 wurs) h4"
  note n0 = NewInt_eq[OF n]
  have f1: "frame h ?h1" using n0 by (auto intro: frame_put)
  have fe: "frame ?h1 h2 \<and> nxt ?h1 \<le> era \<and> era < nxt h2"
    using GetBlockEra_frame[OF e] al n0 by auto
  have f2: "frame h h2" using f1 fe by (auto intro: frame_trans)
  have F: "FrontierBlockReward < 7" by (simp add: globals)
  have fw: "frame h2 h3 \<and> nxt h2 \<le> wr \<and> wr < nxt h3"
    using GetBlockWinnerRewardByEra_frame[OF w] fe f2 al F by (auto dest: frame_nxt)
  have f3: "frame h h3" using f2 fw by (auto intro: frame_trans)
  have fu: "frame h3 h4 \<and> nxt h3 \<le> wurs \<and> wurs < nxt h4"
    using GetBlockWinnerRewardForUnclesByEra_frame[OF u] fe fw f3 al F by (auto dest: frame_nxt)
  have f4: "frame h h4" using f3 fu by (auto intro: frame_trans)
  have wr: "nxt h \<le> wr" "wr < nxt h4" using f2 fw fu by (auto dest: frame_nxt)
  have f5: "frame h ?h5" using f4 wr by (auto intro: frame_put)
  have le5: "nxt h \<le> nxt ?h5" using f5 by (rule frame_nxt)
  have a5: "era < nxt ?h5" "FrontierBlockReward < nxt ?h5" "7 \<le> nxt ?h5" "Number header < nxt ?h5"
    "\<forall>u\<in>set uncles. Number u < nxt ?h5"
    using fe fw fu le5 al F by (auto dest: frame_nxt)
  have "frame ?h5 h' \<and> (\<exists>new. urs = [] @ new \<and> length new = length uncles
      \<and> (\<forall>p\<in>set new. nxt ?h5 \<le> p \<and> p < nxt h'))"
    by (rule ecip1017_uncles_loop_frame[OF l a5])
  then have fl: "frame ?h5 h'" "\<forall>p\<in>set urs. nxt ?h5 \<le> p \<and> p < nxt h'" by auto
  have "frame h h'" using f5 fl(1) by (rule frame_trans)
  moreover have "wr < nxt h'" using wr fl(1) by (auto dest: frame_nxt)
  ultimately show ?thesis using wr fl(2) le5 by auto
qed

lemma ecip1017BlockReward_value:
  assumes ok: "globals_ok h"
    and al: "Number header < nxt h" "\<forall>u\<in>set uncles. Number u < nxt h"
    and len: "GetEthashECIP1017EraRounds config = Some eraLen" "eraLen \<noteq> 0"
  defines "e \<equiv> era_val (store h (Number header)) (uint eraLen)"
  defines "R \<equiv> store h FrontierBlockReward"
  shows "rewards_of (ecip1017BlockReward config header uncles h) =
     Some (winner_val e R + int (length uncles) * (winner_val e R div 32),
           map (\<lambda>u. uncle_val e R (store h (Number header)) (store h (Number u))) uncles)"
proof -
  have g7: "7 \<le> nxt h" using ok by (simp add: globals_ok_def)
  have F: "FrontierBlockReward < 7" by (simp add: globals)
  obtain eraLength h0 where n: "NewInt 0 h = (eraLength, h0)" by force
  note n0 = NewInt_eq[OF n]
  let ?h1 = "put eraLength (uint eraLen) h0"
  have f1: "frame h ?h1" using n0 by (auto intro: frame_put)
  have pos: "0 < uint eraLen" using len(2) uint_ge_0[of eraLen] by (auto simp: less_le uint_0_iff)
  have "\<exists>z h'. GetBlockEra (Number header) eraLength ?h1 = Some (z, h')
      \<and> store h' z = era_val (store ?h1 (Number header)) (store ?h1 eraLength)"
    using al n0 pos by (intro GetBlockEra_value) auto
  then obtain era h2 where
    e: "GetBlockEra (Number header) eraLength ?h1 = Some (era, h2)"
    and ev: "store h2 era = e"
    using al n0 by (auto simp: e_def frame_store)
  have fe: "frame ?h1 h2 \<and> nxt ?h1 \<le> era \<and> era < nxt h2"
    using GetBlockEra_frame[OF e] al n0 by auto
  have f2: "frame h h2" using f1 fe by (auto intro: frame_trans)
  have ok2: "globals_ok h2" using ok f2 by (rule globals_ok_frame)
  have a2: "era < nxt h2" "FrontierBlockReward < nxt h2" using fe f2 g7 F by (auto dest: frame_nxt)
  from GetBlockWinnerRewardByEra_value[OF ok2 a2] obtain wr h3 where
    w: "GetBlockWinnerRewardByEra era FrontierBlockReward h2 = Some (wr, h3)"
    and wv: "store h3 wr = winner_val e R"
    using ev f2 g7 F by (auto simp: R_def frame_store)
  have fw: "frame h2 h3 \<and> nxt h2 \<le> wr \<and> wr < nxt h3"
    using GetBlockWinnerRewardByEra_frame[OF w a2] ok2 by (simp add: globals_ok_def)
  have f3: "frame h h3" using f2 fw by (auto intro: frame_trans)
  have ok3: "globals_ok h3" using ok f3 by (rule globals_ok_frame)
  have a3: "era < nxt h3" "FrontierBlockReward < nxt h3" using a2 fw by (auto dest: frame_nxt)
  have s3: "store h3 era = e" "store h3 FrontierBlockReward = R"
    using fw a2 ev f3 g7 F by (auto simp: frame_store R_def)
  from GetBlockWinnerRewardForUnclesByEra_value[OF ok3 a3, of uncles] obtain wurs h4 where
    u: "GetBlockWinnerRewardForUnclesByEra era uncles FrontierBlockReward h3 = Some (wurs, h4)"
    and uv: "store h4 wurs = int (length uncles) * (winner_val e R div 32)"
    using s3 by auto
  have fu: "frame h3 h4 \<and> nxt h3 \<le> wurs \<and> wurs < nxt h4"
    using GetBlockWinnerRewardForUnclesByEra_frame[OF u a3] ok3 by (simp add: globals_ok_def)
  have f4: "frame h h4" using f3 fu by (auto intro: frame_trans)
  let ?h5 = "put wr (store h4 wr + store h4 wurs) h4"
  have wr: "nxt h \<le> wr" "wr < nxt h4" "era < wr" using f2 fe fw fu by (auto dest: frame_nxt)
  have f5: "frame h ?h5" using f4 wr by (auto intro: frame_put)
  have ok5: "globals_ok ?h5" using ok f5 by (rule globals_ok_frame)
  have h4s: "store h4 era = e" "store h4 wr = winner_val e R"
    using s3(1) wv fu a3(1) fw by (simp_all add: frame_store[of h3 h4])
  have s5: "store ?h5 era = e" "store ?h5 FrontierBlockReward = R"
    "store ?h5 (Number header) = store h (Number header)"
    "store ?h5 wr = winner_val e R + int (length uncles) * (winner_val e R div 32)"
    using h4s uv wr al g7 F frame_store[OF f5] by (simp_all add: R_def)
  have s5u: "\<forall>u\<in>set uncles. store ?h5 (Number u) = store h (Number u)"
    using al frame_store[OF f5] by blast
  have a5: "era < nxt ?h5" "FrontierBlockReward < nxt ?h5" "Number header < nxt ?h5"
    "\<forall>u\<in>set uncles. Number u < nxt ?h5"
    using a3 fu al frame_nxt[OF f5] frame_nxt[of h3 h4] by auto
  from ecip1017_uncles_loop_value[OF ok5 a5, of "[]"] obtain urs h' where
    l: "ecip1017_uncles_loop era header FrontierBlockReward uncles [] ?h5 = Some (urs, h')"
    and lv0: "map (store h') urs = map (\<lambda>u. uncle_val (store ?h5 era) (store ?h5 FrontierBlockReward)
            (store ?h5 (Number header)) (store ?h5 (Number u))) uncles"
    by auto
  have lv: "map (store h') urs = map (\<lambda>u. uncle_val e R (store h (Number header)) (store ?h5 (Number u))) uncles"
    using lv0 by (simp only: s5(1-3))
  have fl: "frame ?h5 h'"
    using ecip1017_uncles_loop_frame[OF l a5(1,2) _ a5(3,4)] ok5 by (simp add: globals_ok_def)
  have "store h' wr = store ?h5 wr" using fl wr by (auto simp: frame_store)
  moreover have "map (\<lambda>u. uncle_val e R (store h (Number header)) (store ?h5 (Number u))) uncles
      = map (\<lambda>u. uncle_val e R (store h (Number header)) (store h (Number u))) uncles"
    using s5u by (intro map_cong) auto
  ultimately show ?thesis using len n e w u l lv s5(4)
    by (simp add: rewards_of_def ecip1017BlockReward_def new_Int_def Int_SetUint64_def Int_Add_def)
qed

lemma flat_uncles_loop_frame:
  assumes "flat_uncles_loop header blockReward reward r uncles uncleRewards h = Some (res, h')"
    and "reward < nxt h" "r < nxt h"
  shows "nxt h \<le> nxt h' \<and> (\<forall>p<nxt h. p \<noteq> reward \<and> p \<noteq> r \<longrightarrow> store h' p = store h p)
     \<and> (\<exists>new. res = uncleRewards @ new \<and> length new = length uncles
          \<and> (\<forall>p\<in>set new. nxt h \<le> p \<and> p < nxt h'))"
  using assms
proof (induction uncles arbitrary: h uncleRewards)
  case Nil
  then show ?case by simp
next
  case (Cons uncle uncles)
  define h1 where "h1 = Int_Mul r r blockReward (Int_Sub r r (Number header) (Int_Add r (Number uncle) big8 h))"
  from Cons.prems(1) obtain h2 where d1: "Int_Div r r big8 h1 = Some h2"
    by (auto simp: bind_eq_Some_conv h1_def)
  obtain ur h3 where n: "NewInt 0 h2 = (ur, h3)" by force
  note n0 = NewInt_eq[OF n]
  define h4 where "h4 = Int_Set ur r h3"
  from Cons.prems(1) d1 n obtain h5 where d2: "Int_Div r blockReward big32 h4 = Some h5"
    and l: "flat_uncles_loop header blockReward reward r uncles (uncleRewards @ [ur]) (Int_Add reward reward r h5) = Some (res, h')"
    by (auto simp: bind_eq_Some_conv h1_def h4_def new_Int_def)
  let ?h6 = "Int_Add reward reward r h5"
  have nx: "nxt h1 = nxt h" "nxt h2 = nxt h" "nxt h3 = Suc (nxt h)" "nxt ?h6 = Suc (nxt h)" "ur = nxt h"
    using d1 d2 n0 by (auto simp: h1_def h4_def Int_Div_Some Int_Mul_def Int_Sub_def Int_Add_def Int_Set_def)
  have st: "\<forall>p<nxt h. p \<noteq> reward \<and> p \<noteq> r \<longrightarrow> store ?h6 p = store h p"
    using d1 d2 n0 nx by (auto simp: h1_def h4_def Int_Div_Some Int_Mul_def Int_Sub_def Int_Add_def Int_Set_def frame_iff)
  have "nxt ?h6 \<le> nxt h' \<and> (\<forall>p<nxt ?h6. p \<noteq> reward \<and> p \<noteq> r \<longrightarrow> store h' p = store ?h6 p)
     \<and> (\<exists>new. res = (uncleRewards @ [ur]) @ new \<and> length new = length uncles
          \<and> (\<forall>p\<in>set new. nxt ?h6 \<le> p \<and> p < nxt h'))"
    using Cons.prems(2,3) nx by (intro Cons.IH[OF l]) auto
  then obtain new where i: "nxt ?h6 \<le> nxt h'"
    "\<forall>p<nxt ?h6. p \<noteq> reward \<and> p \<noteq> r \<longrightarrow> store h' p = store ?h6 p"
    "res = (uncleRewards @ [ur]) @ new" "length new = length uncles"
    "\<forall>p\<in>set new. nxt ?h6 \<le> p \<and> p < nxt h'" by blast
  have "\<forall>p<nxt h. p \<noteq> reward \<and> p \<noteq> r \<longrightarrow> store h' p = store h p"
    using i(2) st nx by auto
  moreover have "\<forall>p\<in>set (ur # new). nxt h \<le> p \<and> p < nxt h'"
    using i(1,5) nx by auto
  ultimately show ?case using i nx
    by (intro conjI exI[of _ "ur # new"]) auto
qed

lemma flat_uncles_loop_value:
  assumes ok: "globals_ok h"
    and al: "Number header < n" "blockReward < n" "\<forall>u\<in>set uncles. Number u < n" "7 \<le> n"
    and fr: "n \<le> reward" "n \<le> r" "reward < nxt h" "r < nxt h" "reward \<noteq> r"
  shows "\<exists>new h'. flat_uncles_loop header blockReward reward r uncles uncleRewards h = Some (uncleRewards @ new, h')
      \<and> map (store h') new = map (\<lambda>u. (store h (Number u) + 8 - store h (Number header)) * store h blockReward div 8) uncles
      \<and> store h' reward = store h reward + int (length uncles) * (store h blockReward div 32)"
  using assms
proof (induction uncles arbitrary: h uncleRewards)
  case Nil
  then show ?case by simp
next
  case (Cons uncle uncles)
  let ?R = "store h blockReward"
  let ?u = "(store h (Number uncle) + 8 - store h (Number header)) * ?R div 8"
  define h6 where "h6 = put reward (store h reward + ?R div 32) (put r (?R div 32)
     (put (nxt h) ?u \<lparr>store = (store (put r ?u h))(nxt h := 0), nxt = Suc (nxt h)\<rparr>))"
  have g: "store h big8 = 8" "store h big32 = 32" "big8 < 7" "big32 < 7"
    using Cons.prems(1) by (auto simp: globals_ok_def globals)
  have ne: "r \<noteq> Number uncle" "r \<noteq> Number header" "r \<noteq> blockReward" "r \<noteq> big8" "r \<noteq> big32"
    "r \<noteq> nxt h" "reward \<noteq> nxt h" "reward \<noteq> blockReward" "reward \<noteq> big32"
    "blockReward \<noteq> nxt h" "big32 \<noteq> nxt h" "big8 \<noteq> nxt h"
    "Number header \<noteq> nxt h" "Number uncle \<noteq> nxt h"
    using Cons.prems g by auto
  have step: "flat_uncles_loop header blockReward reward r (uncle # uncles) uncleRewards h
      = flat_uncles_loop header blockReward reward r uncles (uncleRewards @ [nxt h]) h6"
    using g ne Cons.prems(10)
    by (simp add: big_ops euclid_div_def h6_def Let_def)
  have ok6: "globals_ok h6" using Cons.prems g
    by (auto simp: globals_ok_def h6_def globals)
  have pres: "\<forall>p<n. store h6 p = store h p" using Cons.prems(6,7,8,9)
    by (auto simp: h6_def)
  have "\<exists>new h'. flat_uncles_loop header blockReward reward r uncles (uncleRewards @ [nxt h]) h6 = Some ((uncleRewards @ [nxt h]) @ new, h')
      \<and> map (store h') new = map (\<lambda>u. (store h6 (Number u) + 8 - store h6 (Number header)) * store h6 blockReward div 8) uncles
      \<and> store h' reward = store h6 reward + int (length uncles) * (store h6 blockReward div 32)"
    using Cons.prems(2-) by (intro Cons.IH[OF ok6]) (auto simp: h6_def)
  then obtain new h' where
    l: "flat_uncles_loop header blockReward reward r uncles (uncleRewards @ [nxt h]) h6 = Some ((uncleRewards @ [nxt h]) @ new, h')"
    and vs: "map (store h') new = map (\<lambda>u. (store h6 (Number u) + 8 - store h6 (Number header)) * store h6 blockReward div 8) uncles"
    and rv: "store h' reward = store h6 reward + int (length uncles) * (store h6 blockReward div 32)"
    by blast
  have keep: "\<forall>p<nxt h6. p \<noteq> reward \<and> p \<noteq> r \<longrightarrow> store h' p = store h6 p"
    using flat_uncles_loop_frame[OF l] Cons.prems(8,9) by (auto simp: h6_def)
  have u0: "store h' (nxt h) = ?u"
    using keep ne by (auto simp: h6_def)
  have vs': "map (store h') new = map (\<lambda>u. (store h (Number u) + 8 - store h (Number header)) * ?R div 8) uncles"
    using vs pres Cons.prems(2-4) by (auto intro!: map_cong[OF refl])
  have "store h6 reward = store h reward + ?R div 32" "store h6 blockReward = ?R"
    using ne pres Cons.prems(3) by (auto simp: h6_def)
  with rv have rv': "store h' reward = store h reward + int (length (uncle # uncles)) * (?R div 32)"
    by (simp add: algebra_simps)
  show ?case using step l u0 vs' rv'
    by (intro exI[of _ "nxt h # new"] exI[of _ h']) simp
qed

lemma schedule_walk_result:
  "snd (schedule_walk n sched (a, b)) = b \<or> snd (schedule_walk n sched (a, b)) \<in> snd ` set sched"
proof (induction sched arbitrary: a b)
  case Nil
  then show ?case by simp
next
  case (Cons x sched)
  obtain a' r where x: "x = (a', r)" by force
  show ?case using Cons.IH[of a' r] Cons.IH[of a b] by (auto simp: x)
qed

lemma EthashBlockReward_allocated:
  assumes "7 \<le> nxt h" "\<forall>p\<in>snd ` set (GetEthashBlockRewardSchedule config). p < nxt h"
  shows "EthashBlockReward (Some config) n h < nxt h"
proof -
  have "FrontierBlockReward < nxt h" "EIP649FBlockReward < nxt h" "EIP1234FBlockReward < nxt h"
    using assms(1) by (simp_all add: globals)
  moreover have "snd (schedule_walk w (GetEthashBlockRewardSchedule config) (0, FrontierBlockReward)) < nxt h" for w
    using schedule_walk_result[of w "GetEthashBlockRewardSchedule config" 0 FrontierBlockReward] assms(2) calculation(1)
    by auto
  ultimately show ?thesis
    by (auto simp: EthashBlockReward_def split: option.splits)
qed

lemma GetRewards_flat_steps:
  assumes "\<not> IsEnabled config GetEthashECIP1017Transition (store h (Number header))"
  shows "GetRewards config header uncles h =
    map_option (\<lambda>(urs, h'). ((nxt h, urs), h'))
      (flat_uncles_loop header (EthashBlockReward (Some config) (Some (Number header)) h) (nxt h) (Suc (nxt h)) uncles []
        (flat_start (EthashBlockReward (Some config) (Some (Number header)) h) h))"
  using assms
  by (simp add: GetRewards_def flat_start_def big_ops Let_def map_option_case split: option.splits)

lemma flat_start_simps:
  "nxt (flat_start b h) = Suc (Suc (nxt h))"
  "p < nxt h \<Longrightarrow> store (flat_start b h) p = store h p"
  "b < nxt h \<Longrightarrow> store (flat_start b h) (nxt h) = store h b"
  by (auto simp: flat_start_def big_ops)

lemma GetRewards_frame:
  assumes run: "GetRewards config header uncles h = Some ((reward, urs), h')"
    and al: "7 \<le> nxt h" "Number header < nxt h" "\<forall>u\<in>set uncles. Number u < nxt h"
  shows "frame h h' \<and> nxt h \<le> reward \<and> reward < nxt h' \<and> (\<forall>p\<in>set urs. nxt h \<le> p \<and> p < nxt h')"
proof (cases "IsEnabled config GetEthashECIP1017Transition (store h (Number header))")
  case True
  with run have "ecip1017BlockReward config header uncles h = Some ((reward, urs), h')"
    by (simp add: GetRewards_def)
  from ecip1017BlockReward_frame[OF this al] show ?thesis .
next
  case False
  let ?bR = "EthashBlockReward (Some config) (Some (Number header)) h"
  let ?h2 = "flat_start ?bR h"
  from run have l: "flat_uncles_loop header ?bR (nxt h) (Suc (nxt h)) uncles [] ?h2 = Some (urs, h')"
    and r: "reward = nxt h"
    by (auto simp: GetRewards_flat_steps[OF False])
  from flat_uncles_loop_frame[OF l] have
    "nxt ?h2 \<le> nxt h' \<and> (\<forall>p<nxt ?h2. p \<noteq> nxt h \<and> p \<noteq> Suc (nxt h) \<longrightarrow> store h' p = store ?h2 p)
     \<and> (\<exists>new. urs = [] @ new \<and> length new = length uncles \<and> (\<forall>p\<in>set new. nxt ?h2 \<le> p \<and> p < nxt h'))"
    by (simp add: flat_start_simps)
  with r show ?thesis by (auto simp: frame_iff flat_start_simps)
qed

lemma GetRewards_flat_value:
  assumes ok: "globals_ok h"
    and flat: "\<not> IsEnabled config GetEthashECIP1017Transition (store h (Number header))"
    and al: "Number header < nxt h" "\<forall>u\<in>set uncles. Number u < nxt h"
      "\<forall>p\<in>snd ` set (GetEthashBlockRewardSchedule config). p < nxt h"
  defines "R \<equiv> store h (EthashBlockReward (Some config) (Some (Number header)) h)"
  shows "rewards_of (GetRewards config header uncles h) =
     Some (R + int (length uncles) * (R div 32),
           map (\<lambda>u. (store h (Number u) + 8 - store h (Number header)) * R div 8) uncles)"
proof -
  let ?bR = "EthashBlockReward (Some config) (Some (Number header)) h"
  let ?h2 = "flat_start ?bR h"
  have g7: "7 \<le> nxt h" using ok by (simp add: globals_ok_def)
  have bR: "?bR < nxt h" using g7 al(3) by (rule EthashBlockReward_allocated)
  have ok2: "globals_ok ?h2" using ok by (auto simp: globals_ok_def globals flat_start_simps)
  have "\<exists>new h'. flat_uncles_loop header ?bR (nxt h) (Suc (nxt h)) uncles [] ?h2 = Some ([] @ new, h')
      \<and> map (store h') new = map (\<lambda>u. (store ?h2 (Number u) + 8 - store ?h2 (Number header)) * store ?h2 ?bR div 8) uncles
      \<and> store h' (nxt h) = store ?h2 (nxt h) + int (length uncles) * (store ?h2 ?bR div 32)"
    using al(1,2) bR g7 by (intro flat_uncles_loop_value[OF ok2, where n = "nxt h"]) (auto simp: flat_start_simps)
  then obtain urs h' where
    l: "flat_uncles_loop header ?bR (nxt h) (Suc (nxt h)) uncles [] ?h2 = Some (urs, h')"
    and vs: "map (store h') urs = map (\<lambda>u. (store ?h2 (Number u) + 8 - store ?h2 (Number header)) * store ?h2 ?bR div 8) uncles"
    and rv: "store h' (nxt h) = store ?h2 (nxt h) + int (length uncles) * (store ?h2 ?bR div 32)"
    by auto
  have s2: "store ?h2 ?bR = R" "store ?h2 (Number header) = store h (Number header)" "store ?h2 (nxt h) = R"
    using bR al(1) by (auto simp: R_def flat_start_simps)
  have "map (\<lambda>u. (store ?h2 (Number u) + 8 - store ?h2 (Number header)) * store ?h2 ?bR div 8) uncles
      = map (\<lambda>u. (store h (Number u) + 8 - store h (Number header)) * R div 8) uncles"
    using al(2) bR al(1) by (intro map_cong[OF refl]) (auto simp: R_def flat_start_simps)
  with vs rv s2 l show ?thesis
    by (simp add: GetRewards_flat_steps[OF flat] rewards_of_def)
qed

lemma schedule_walk_inv:
  assumes "schedule_walk n sched (la, br) = (k, p)"
  shows "la \<le> k \<and> (\<forall>a\<in>fst ` set sched. a \<le> n \<longrightarrow> a \<le> k)
     \<and> (if \<exists>a\<in>fst ` set sched. a \<le> n \<and> la \<le> a then (k, p) \<in> set sched \<and> k \<le> n
         else (k, p) = (la, br))"
  using assms
proof (induction sched arbitrary: la br)
  case Nil
  then show ?case by simp
next
  case (Cons x sched)
  obtain a r where x: "x = (a, r)" by force
  show ?case
  proof (cases "a \<le> n \<and> la \<le> a")
    case True
    with Cons.prems x have "schedule_walk n sched (a, r) = (k, p)" by simp
    from Cons.IH[OF this] True x show ?thesis by (auto split: if_splits)
  next
    case False
    with Cons.prems x have "schedule_walk n sched (la, br) = (k, p)" by (auto split: if_splits)
    from Cons.IH[OF this] False x show ?thesis by (auto split: if_splits)
  qed
qed

lemma schedule_walk_max:
  assumes d: "distinct (map fst sched)"
  shows "snd (schedule_walk n sched (0, br)) =
     (if \<exists>a\<in>fst ` set sched. a \<le> n then the (map_of sched (Max {a \<in> fst ` set sched. a \<le> n})) else br)"
proof -
  obtain k p where w: "schedule_walk n sched (0, br) = (k, p)" by force
  note inv = schedule_walk_inv[OF w]
  show ?thesis
  proof (cases "\<exists>a\<in>fst ` set sched. a \<le> n")
    case True
    with inv have kp: "(k, p) \<in> set sched" "k \<le> n" "\<forall>a\<in>fst ` set sched. a \<le> n \<longrightarrow> a \<le> k"
      by (auto split: if_splits)
    have "Max {a \<in> fst ` set sched. a \<le> n} = k"
      using kp by (intro Max_eqI) (auto simp: image_iff intro: bexI[of _ "(k, p)"])
    moreover have "map_of sched k = Some p" using d kp(1) by simp
    ultimately show ?thesis using True w by simp
  next
    case False
    with inv w show ?thesis by (auto split: if_splits)
  qed
qed

lemma uint64_in_range:
  assumes "0 \<le> N" "N < 2 ^ 64"
  shows "(a \<le> (word_of_int \<bar>N\<bar> :: 64 word)) \<longleftrightarrow> uint a \<le> N"
proof -
  have "uint (word_of_int N :: 64 word) = N"
    using assms by (simp add: uint_word_of_int take_bit_int_eq_self)
  with assms(1) show ?thesis by (simp add: word_le_def)
qed

lemma schedule_reward_eq:
  "schedule_reward sched N =
     (if \<exists>a\<in>fst ` set sched. uint a \<le> N then map_of sched (Max {a \<in> fst ` set sched. uint a \<le> N}) else None)"
proof -
  have "set (filter (\<lambda>a. uint a \<le> N) (map fst sched)) = {a \<in> fst ` set sched. uint a \<le> N}"
    by auto
  moreover have "filter (\<lambda>a. uint a \<le> N) (map fst sched) = [] \<longleftrightarrow> \<not> (\<exists>a\<in>fst ` set sched. uint a \<le> N)"
    by (auto simp: filter_empty_conv)
  ultimately show ?thesis by (simp add: schedule_reward_def Let_def)
qed

lemma EthashBlockReward_eq_spec:
  assumes "distinct (map fst (GetEthashBlockRewardSchedule c))" "0 \<le> store h n" "store h n < 2 ^ 64"
  shows "EthashBlockReward (Some c) (Some n) h = EthashBlockReward_spec c (store h n)"
proof -
  let ?s = "GetEthashBlockRewardSchedule c"
  let ?N = "store h n"
  let ?Q = "{a \<in> fst ` set ?s. uint a \<le> ?N}"
  have q: "{a \<in> fst ` set ?s. a \<le> Int_Uint64 n h} = ?Q"
    using uint64_in_range[OF assms(2,3)] by (simp add: Int_Uint64_def)
  have e: "(\<exists>a\<in>fst ` set ?s. a \<le> Int_Uint64 n h) \<longleftrightarrow> (\<exists>a\<in>fst ` set ?s. uint a \<le> ?N)"
    using uint64_in_range[OF assms(2,3)] by (simp add: Int_Uint64_def)
  have m: "\<exists>a\<in>fst ` set ?s. uint a \<le> ?N \<Longrightarrow> \<exists>p. map_of ?s (Max ?Q) = Some p"
  proof -
    assume "\<exists>a\<in>fst ` set ?s. uint a \<le> ?N"
    then have "?Q \<noteq> {}" by auto
    then have "Max ?Q \<in> ?Q" by (intro Max_in) auto
    then have "Max ?Q \<in> fst ` set ?s" by simp
    then have "map_of ?s (Max ?Q) \<noteq> None" by (simp only: map_of_eq_None_iff not_not)
    then show ?thesis by blast
  qed
  have w: "snd (schedule_walk (Int_Uint64 n h) ?s (0, FrontierBlockReward)) =
      (case schedule_reward ?s ?N of Some reward \<Rightarrow> reward | None \<Rightarrow> FrontierBlockReward)"
  proof (cases "\<exists>a\<in>fst ` set ?s. uint a \<le> ?N")
    case True
    from m[OF True] obtain p where "map_of ?s (Max ?Q) = Some p" ..
    with True e q show ?thesis
      by (simp add: schedule_walk_max[OF assms(1)] schedule_reward_eq)
  next
    case False
    with e q show ?thesis
      by (simp add: schedule_walk_max[OF assms(1)] schedule_reward_eq)
  qed
  have n: "?s = [] \<Longrightarrow> schedule_reward ?s ?N = None"
    by (simp add: schedule_reward_def)
  show ?thesis
    using w n by (cases "?s = []") (simp_all add: EthashBlockReward_def EthashBlockReward_spec_def)
qed

lemma era_val_floor:
  assumes "1 \<le> n" "2 \<le> L"
  shows "era_val n L = (n - 1) div L"
proof -
  have "n - (n - 1) mod L = L * ((n - 1) div L) + 1"
    by (simp add: algebra_simps minus_mod_eq_mult_div[symmetric])
  moreover have "(L * ((n - 1) div L) + 1) div L = (n - 1) div L"
    using assms(2) by simp
  ultimately show ?thesis using assms(1) by (simp add: era_val_def)
qed

lemma era_val_one: "1 \<le> n \<Longrightarrow> era_val n 1 = n"
  by (simp add: era_val_def)

lemma trunc_quo_nonneg: "0 \<le> a \<Longrightarrow> 0 < b \<Longrightarrow> trunc_quo a b = a div b"
  by (cases "a = 0") (simp_all add: trunc_quo_def)

lemma GetBlockEra_floor:
  assumes "blockNum < nxt h" "eraLength < nxt h" "2 \<le> store h eraLength"
  shows "value_of (GetBlockEra blockNum eraLength h) =
     Some (if store h blockNum \<le> 0 then 0 else (store h blockNum - 1) div store h eraLength)"
proof -
  have "0 < store h eraLength" using assms(3) by simp
  from GetBlockEra_value[OF assms(1,2) this]
  have v: "value_of (GetBlockEra blockNum eraLength h) =
      Some (era_val (store h blockNum) (store h eraLength))"
    by (auto simp: value_of_def)
  show ?thesis
  proof (cases "store h blockNum \<le> 0")
    case True
    then show ?thesis by (simp add: v era_val_def)
  next
    case False
    then have "1 \<le> store h blockNum" by simp
    from era_val_floor[OF this assms(3)] False show ?thesis by (simp add: v)
  qed
qed

lemma GetBlockEra_length_one:
  assumes "blockNum < nxt h" "eraLength < nxt h" "store h eraLength = 1" "1 \<le> store h blockNum"
  shows "value_of (GetBlockEra blockNum eraLength h) = Some (store h blockNum)"
proof -
  have "0 < store h eraLength" using assms(3) by simp
  from GetBlockEra_value[OF assms(1,2) this] era_val_one[OF assms(4)] assms(3)
  show ?thesis by (auto simp: value_of_def)
qed

lemma EthashBlockReward_spec_order:
  assumes "set sched' = set (GetEthashBlockRewardSchedule c)"
    "distinct (map fst sched')" "distinct (map fst (GetEthashBlockRewardSchedule c))"
  shows "EthashBlockReward_spec (c\<lparr>GetEthashBlockRewardSchedule := sched'\<rparr>) N = EthashBlockReward_spec c N"
proof -
  have "map_of sched' = map_of (GetEthashBlockRewardSchedule c)"
    using assms by (simp add: map_of_inject_set)
  then show ?thesis using assms(1)
    by (simp add: EthashBlockReward_spec_def schedule_reward_eq)
qed

lemmas example_heap = heap_of_def globals_ok_def globals

lemma value_of_Some: "f = Some (p, h') \<Longrightarrow> store h' p = v \<Longrightarrow> value_of f = Some v"
  by (simp add: value_of_def)

lemma rewards_of_SomeD: "rewards_of f = Some v \<Longrightarrow> \<exists>reward urs h'. f = Some ((reward, urs), h')"
  by (cases f) (auto simp: rewards_of_def)

text \<open>
  The two integer divisions in play. \<^verbatim>\<open>big.Int.Div\<close> and \<^verbatim>\<open>big.Int.Mod\<close> are Euclidean: the
  remainder is never negative. \<^verbatim>\<open>big.Int.Quo\<close> truncates towards zero: it is odd in both
  arguments and agrees with \<^term>\<open>(div)\<close> on non-negative operands.
\<close>

lemma euclid_div_mod:
  assumes "y \<noteq> 0"
  shows "x = y * euclid_div x y + euclid_mod x y \<and> 0 \<le> euclid_mod x y \<and> euclid_mod x y < \<bar>y\<bar>"
proof (cases "0 < y")
  case True
  then show ?thesis by (simp add: euclid_div_def euclid_mod_def)
next
  case False
  with assms have y: "y < 0" by simp
  have "(- y) * (x div (- y)) + x mod (- y) = x" by (rule mult_div_mod_eq)
  with y show ?thesis by (simp add: euclid_div_def euclid_mod_def abs_if)
qed

lemma trunc_quo_minus:
  "trunc_quo (- x) y = - trunc_quo x y" "trunc_quo x (- y) = - trunc_quo x y"
  by (cases "x = 0"; cases "y = 0"; auto simp: trunc_quo_def)+


section \<open>The reward engine: the claims\<close>

subsection \<open>C1: the block reward of the flat path\<close>

text \<open>
  Claim C1, for block numbers that fit \<open>uint64\<close>. For a configurator \<open>c\<close> and a block
  number \<open>n\<close> with \<open>0 \<le> n < 2 ^ 64\<close>, \<open>EthashBlockReward\<close> returns the EIP-1234
  constant when that transition is enabled at \<open>n\<close>, else the EIP-649 constant when that
  transition is enabled, else the reward that the schedule maps to the greatest
  activation height that is at most \<open>n\<close>, and the Frontier constant when no entry
  qualifies (\<open>EthashBlockReward_spec\<close>). The result is the same for every order in
  which the schedule is enumerated. The schedule walk compares the activation heights
  with \<open>n.Uint64()\<close>, so the bound on \<open>n\<close> is needed.
\<close>

theorem EthashBlockReward_greatest_activation:
  assumes "distinct (map fst (GetEthashBlockRewardSchedule c))"
    and "0 \<le> store h n" "store h n < 2 ^ 64"
  shows "EthashBlockReward (Some c) (Some n) h = EthashBlockReward_spec c (store h n)
     \<and> (\<forall>sched'. set sched' = set (GetEthashBlockRewardSchedule c) \<and> distinct (map fst sched') \<longrightarrow>
           EthashBlockReward (Some (c\<lparr>GetEthashBlockRewardSchedule := sched'\<rparr>)) (Some n) h =
           EthashBlockReward (Some c) (Some n) h)"
proof (intro conjI allI impI)
  show c: "EthashBlockReward (Some c) (Some n) h = EthashBlockReward_spec c (store h n)"
    using assms by (rule EthashBlockReward_eq_spec)
  fix sched'
  assume s: "set sched' = set (GetEthashBlockRewardSchedule c) \<and> distinct (map fst sched')"
  let ?c' = "c\<lparr>GetEthashBlockRewardSchedule := sched'\<rparr>"
  have "EthashBlockReward (Some ?c') (Some n) h = EthashBlockReward_spec ?c' (store h n)"
    using s assms(2,3) by (intro EthashBlockReward_eq_spec) simp_all
  also have "\<dots> = EthashBlockReward_spec c (store h n)"
    using s assms(1) by (intro EthashBlockReward_spec_order) simp_all
  finally show "EthashBlockReward (Some ?c') (Some n) h = EthashBlockReward (Some c) (Some n) h"
    using c by simp
qed

text \<open>
  C1 on a schedule with the activation heights 5, 0 and 10, at block 7: the reward of
  height 5 is returned, also when the schedule is enumerated in another order.
\<close>

theorem EthashBlockReward_greatest_activation_witness:
  "EthashBlockReward
     (Some \<lparr>IsEnabled = never_enabled, GetEthashECIP1017EraRounds = None,
            GetEthashBlockRewardSchedule = [(5, 9), (0, 8), (10, 10)]\<rparr>)
     (Some 7)
     (heap_of [8, 32, 4, 5, 5000000000000000000, 3000000000000000000, 2000000000000000000, 7, 11, 12, 13]) = 9
   \<and> EthashBlockReward
     (Some \<lparr>IsEnabled = never_enabled, GetEthashECIP1017EraRounds = None,
            GetEthashBlockRewardSchedule = [(10, 10), (0, 8), (5, 9)]\<rparr>)
     (Some 7)
     (heap_of [8, 32, 4, 5, 5000000000000000000, 3000000000000000000, 2000000000000000000, 7, 11, 12, 13]) = 9"
proof -
  let ?c = "\<lparr>IsEnabled = never_enabled, GetEthashECIP1017EraRounds = None,
            GetEthashBlockRewardSchedule = [(5 :: 64 word, 9 :: ptr), (0, 8), (10, 10)]\<rparr>"
  let ?h = "heap_of [8, 32, 4, 5, 5000000000000000000, 3000000000000000000, 2000000000000000000, 7, 11, 12, 13]"
  have d: "distinct (map fst (GetEthashBlockRewardSchedule ?c))" by simp
  have r: "0 \<le> store ?h 7" "store ?h 7 < 2 ^ 64" by (simp_all add: heap_of_def)
  have s: "EthashBlockReward_spec ?c (store ?h 7) = 9"
    by (simp add: EthashBlockReward_spec_def schedule_reward_def never_enabled_def heap_of_def)
  have o: "set [(10 :: 64 word, 10 :: ptr), (0, 8), (5, 9)] = set (GetEthashBlockRewardSchedule ?c)
      \<and> distinct (map fst [(10 :: 64 word, 10 :: ptr), (0, 8), (5, 9)])" by auto
  from EthashBlockReward_greatest_activation[OF d r] s o show ?thesis by auto
qed

text \<open>
  C1 as stated, for every block number, fails at the block number \<open>-1\<close>:
  \<open>n.Uint64()\<close> is 1 there, so the entry with activation height 1 is chosen, where no
  activation height is at most \<open>-1\<close> and the claim promises the Frontier constant.
\<close>

theorem EthashBlockReward_negative_number:
  "EthashBlockReward
     (Some \<lparr>IsEnabled = never_enabled, GetEthashECIP1017EraRounds = None,
            GetEthashBlockRewardSchedule = [(1, 8)]\<rparr>)
     (Some 7)
     (heap_of [8, 32, 4, 5, 5000000000000000000, 3000000000000000000, 2000000000000000000, - 1, 7]) = 8
   \<and> EthashBlockReward_spec
     \<lparr>IsEnabled = never_enabled, GetEthashECIP1017EraRounds = None,
      GetEthashBlockRewardSchedule = [(1, 8)]\<rparr> (- 1) = FrontierBlockReward
   \<and> FrontierBlockReward \<noteq> 8"
  by (simp add: EthashBlockReward_def EthashBlockReward_spec_def schedule_reward_def never_enabled_def
      heap_of_def Int_Uint64_def globals)

subsection \<open>C2: \<open>GetRewards\<close> on the flat path\<close>

text \<open>
  Claim C2, with the division of \<open>big.Int.Div\<close>. On the flat path, with the block
  reward \<open>R\<close> that \<open>EthashBlockReward\<close> selects, \<open>GetRewards\<close> returns for each uncle
  \<open>u\<close>, in order, \<open>R * (u.Number + 8 - h.Number) div 8\<close>, and the miner reward \<open>R\<close> plus
  \<open>R div 32\<close> once per uncle. \<open>div\<close> rounds towards minus infinity (Euclidean division by
  the positive 8); it is the truncating quotient whenever the dividend is not negative.
\<close>

theorem GetRewards_flat_path:
  assumes "globals_ok h"
    and "\<not> IsEnabled config GetEthashECIP1017Transition (store h (Number header))"
    and "Number header < nxt h" "\<forall>u\<in>set uncles. Number u < nxt h"
    and "\<forall>p\<in>snd ` set (GetEthashBlockRewardSchedule config). p < nxt h"
  shows "let R = store h (EthashBlockReward (Some config) (Some (Number header)) h)
     in rewards_of (GetRewards config header uncles h) =
          Some (R + int (length uncles) * (R div 32),
                map (\<lambda>u. R * (store h (Number u) + 8 - store h (Number header)) div 8) uncles)
        \<and> (\<forall>u\<in>set uncles. 0 \<le> R * (store h (Number u) + 8 - store h (Number header)) \<longrightarrow>
              R * (store h (Number u) + 8 - store h (Number header)) div 8 =
              trunc_quo (R * (store h (Number u) + 8 - store h (Number header))) 8)"
  using GetRewards_flat_value[OF assms]
  by (simp add: Let_def mult.commute trunc_quo_nonneg)

text \<open>
  C2 on the example of the specification: \<open>R = 5 * 10 ^ 18\<close>, header 10 and two uncles
  at distances 1 and 2.
\<close>

theorem GetRewards_flat_path_witness:
  "rewards_of (GetRewards
      \<lparr>IsEnabled = never_enabled, GetEthashECIP1017EraRounds = None, GetEthashBlockRewardSchedule = []\<rparr>
      \<lparr>Number = 7\<rparr> [\<lparr>Number = 8\<rparr>, \<lparr>Number = 9\<rparr>]
      (heap_of [8, 32, 4, 5, 5000000000000000000, 3000000000000000000, 2000000000000000000, 10, 9, 8]))
   = Some (5000000000000000000 + 2 * (5000000000000000000 div 32),
           [5000000000000000000 * 7 div 8, 5000000000000000000 * 6 div 8])
   \<and> 5000000000000000000 * 7 div 8 = trunc_quo (5000000000000000000 * 7) 8"
proof -
  let ?c = "\<lparr>IsEnabled = never_enabled, GetEthashECIP1017EraRounds = None,
             GetEthashBlockRewardSchedule = ([] :: (64 word \<times> ptr) list)\<rparr>"
  let ?h = "heap_of [8, 32, 4, 5, 5000000000000000000, 3000000000000000000, 2000000000000000000, 10, 9, 8]"
  let ?us = "[\<lparr>Number = 8\<rparr>, \<lparr>Number = 9\<rparr>]"
  have a: "globals_ok ?h" "\<not> IsEnabled ?c GetEthashECIP1017Transition (store ?h (Number \<lparr>Number = 7\<rparr>))"
    "Number \<lparr>Number = 7\<rparr> < nxt ?h" "\<forall>u\<in>set ?us. Number u < nxt ?h"
    "\<forall>p\<in>snd ` set (GetEthashBlockRewardSchedule ?c). p < nxt ?h"
    by (simp_all add: example_heap never_enabled_def)
  have R: "store ?h (EthashBlockReward (Some ?c) (Some (Number \<lparr>Number = 7\<rparr>)) ?h) = 5000000000000000000"
    by (simp add: EthashBlockReward_def never_enabled_def example_heap)
  have s: "store ?h 8 = 9" "store ?h 9 = 8" "store ?h 7 = 10" by (simp_all add: heap_of_def)
  from GetRewards_flat_path[OF a] show ?thesis
    unfolding Let_def R by (simp add: s)
qed

text \<open>
  C2 as stated, with truncating division, fails for a header 9, an uncle 0 and a
  scheduled reward of 1: the uncle's reward is \<open>-1\<close>, and the truncating quotient of
  \<open>1 * (0 + 8 - 9)\<close> by 8 is 0.
\<close>

theorem GetRewards_uncle_not_truncating:
  "rewards_of (GetRewards
      \<lparr>IsEnabled = never_enabled, GetEthashECIP1017EraRounds = None, GetEthashBlockRewardSchedule = [(0, 9)]\<rparr>
      \<lparr>Number = 7\<rparr> [\<lparr>Number = 8\<rparr>]
      (heap_of [8, 32, 4, 5, 5000000000000000000, 3000000000000000000, 2000000000000000000, 9, 0, 1]))
   = Some (1, [- 1])
   \<and> trunc_quo (1 * (0 + 8 - 9)) 8 = 0"
proof -
  let ?c = "\<lparr>IsEnabled = never_enabled, GetEthashECIP1017EraRounds = None,
             GetEthashBlockRewardSchedule = [(0 :: 64 word, 9 :: ptr)]\<rparr>"
  let ?h = "heap_of [8, 32, 4, 5, 5000000000000000000, 3000000000000000000, 2000000000000000000, 9, 0, 1]"
  let ?us = "[\<lparr>Number = 8\<rparr>]"
  have a: "globals_ok ?h" "\<not> IsEnabled ?c GetEthashECIP1017Transition (store ?h (Number \<lparr>Number = 7\<rparr>))"
    "Number \<lparr>Number = 7\<rparr> < nxt ?h" "\<forall>u\<in>set ?us. Number u < nxt ?h"
    "\<forall>p\<in>snd ` set (GetEthashBlockRewardSchedule ?c). p < nxt ?h"
    by (simp_all add: example_heap never_enabled_def)
  have R: "store ?h (EthashBlockReward (Some ?c) (Some (Number \<lparr>Number = 7\<rparr>)) ?h) = 1"
    by (simp add: EthashBlockReward_def never_enabled_def example_heap Int_Uint64_def)
  have s: "store ?h 8 = 0" "store ?h 7 = 9" by (simp_all add: heap_of_def)
  from GetRewards_flat_value[OF a] show ?thesis
    unfolding R by (simp add: s trunc_quo_def)
qed

subsection \<open>C3: the winner's reward of an era\<close>

text \<open>
  Claim C3, with the division of \<open>big.Int.Div\<close>. \<open>GetBlockWinnerRewardByEra\<close> returns the
  base reward \<open>R\<close> in era 0 and \<open>R * 4 ^ e div 5 ^ e\<close> in every era \<open>e \<ge> 1\<close>: both powers
  are exact, and there is one division, which rounds towards minus infinity. It is the
  truncating quotient when \<open>R\<close> is not negative. In era 1 the result is \<open>R * 4 div 5\<close>.
\<close>

theorem GetBlockWinnerRewardByEra_floor:
  assumes "globals_ok h" "era < nxt h" "blockReward < nxt h"
  shows "(store h era = 0 \<longrightarrow>
            value_of (GetBlockWinnerRewardByEra era blockReward h) = Some (store h blockReward))
     \<and> (1 \<le> store h era \<longrightarrow>
            value_of (GetBlockWinnerRewardByEra era blockReward h) =
              Some (store h blockReward * 4 ^ nat (store h era) div 5 ^ nat (store h era)))
     \<and> (1 \<le> store h era \<and> 0 \<le> store h blockReward \<longrightarrow>
            value_of (GetBlockWinnerRewardByEra era blockReward h) =
              Some (trunc_quo (store h blockReward * 4 ^ nat (store h era)) (5 ^ nat (store h era))))
     \<and> (store h era = 1 \<longrightarrow>
            value_of (GetBlockWinnerRewardByEra era blockReward h) = Some (store h blockReward * 4 div 5))"
proof -
  from GetBlockWinnerRewardByEra_value[OF assms]
  have v: "value_of (GetBlockWinnerRewardByEra era blockReward h) =
      Some (winner_val (store h era) (store h blockReward))"
    by (auto simp: value_of_def)
  show ?thesis unfolding v
    by (auto simp: winner_val_def trunc_quo_nonneg)
qed

text \<open>
  C3 at era 1 and the base reward \<open>5 * 10 ^ 18\<close>.
\<close>

theorem GetBlockWinnerRewardByEra_floor_witness:
  "value_of (GetBlockWinnerRewardByEra 7 4
      (heap_of [8, 32, 4, 5, 5000000000000000000, 3000000000000000000, 2000000000000000000, 1, 0])) =
     Some 4000000000000000000
   \<and> value_of (GetBlockWinnerRewardByEra 7 4
      (heap_of [8, 32, 4, 5, 5000000000000000000, 3000000000000000000, 2000000000000000000, 1, 0])) =
     Some (trunc_quo (5000000000000000000 * 4 ^ 1) (5 ^ 1))
   \<and> value_of (GetBlockWinnerRewardByEra 8 4
      (heap_of [8, 32, 4, 5, 5000000000000000000, 3000000000000000000, 2000000000000000000, 1, 0])) =
     Some 5000000000000000000"
proof -
  let ?h = "heap_of [8, 32, 4, 5, 5000000000000000000, 3000000000000000000, 2000000000000000000, 1, 0]"
  have a: "globals_ok ?h" "7 < nxt ?h" "8 < nxt ?h" "4 < nxt ?h"
    and s: "store ?h 7 = 1" "store ?h 8 = 0" "store ?h 4 = 5000000000000000000"
    by (simp_all add: globals_ok_def heap_of_def globals)
  from GetBlockWinnerRewardByEra_floor[OF a(1,2,4)] GetBlockWinnerRewardByEra_floor[OF a(1,3,4)]
  show ?thesis by (simp add: s trunc_quo_def)
qed

text \<open>
  C3 as stated, with truncating division, fails at era 1 and the base reward \<open>-1\<close>: the
  result is \<open>-1\<close>, and the truncating quotient of \<open>-4\<close> by 5 is 0.
\<close>

theorem GetBlockWinnerRewardByEra_not_truncating:
  "value_of (GetBlockWinnerRewardByEra 7 8
      (heap_of [8, 32, 4, 5, 5000000000000000000, 3000000000000000000, 2000000000000000000, 1, - 1])) = Some (- 1)
   \<and> trunc_quo (- 1 * 4 ^ 1) (5 ^ 1) = 0"
  by (simp add: value_of_def GetBlockWinnerRewardByEra_def heap_of_def big_ops globals
      euclid_div_def trunc_quo_def Let_def)

subsection \<open>C4: the era of a block\<close>

text \<open>
  Claim C4 fails for the era length 1: \<open>GetBlockEra(1, 1)\<close> is 1, where the claim (and
  the zero-indexed eras of the function's comment) give \<open>(1 - 1) div 1 = 0\<close>. The lemma
  \<open>GetBlockEra_length_one\<close> above gives \<open>n\<close> for every block \<open>n \<ge> 1\<close> at the era length 1;
  for an era length of at least 2 the lemma \<open>GetBlockEra_floor\<close> gives what the claim
  states, 0 for \<open>n \<le> 0\<close> and \<open>(n - 1) div L\<close> otherwise.
\<close>

theorem GetBlockEra_era_length_one:
  "value_of (GetBlockEra 7 8
      (heap_of [8, 32, 4, 5, 5000000000000000000, 3000000000000000000, 2000000000000000000, 1, 1])) = Some 1
   \<and> ((1 :: int) - 1) div 1 = 0"
  by (simp add: value_of_def GetBlockEra_def heap_of_def big_ops euclid_mod_def euclid_div_def Let_def)

subsection \<open>C5: the rewards of the era path\<close>

text \<open>
  Claim C5. With \<open>W\<close> the value of \<open>GetBlockWinnerRewardByEra(e, blockReward)\<close>: in era 0
  an uncle's reward is \<open>blockReward * (uncle.Number + 8 - header.Number) div 8\<close>; in every
  era \<open>e \<ge> 1\<close> it is \<open>W div 32\<close>, whatever the uncle's distance; the winner's reward for
  its uncles is \<open>uncleCount * (W div 32)\<close>; and \<open>ecip1017BlockReward\<close>, which runs them on
  the Frontier reward and the era of the header, returns \<open>W + uncleCount * (W div 32)\<close>
  for the winner and those uncle rewards, in order.
\<close>

theorem era_path_rewards:
  assumes "globals_ok h"
    and "era < nxt h" "blockReward < nxt h"
    and "Number header < nxt h" "Number uncle < nxt h" "\<forall>u\<in>set uncles. Number u < nxt h"
  shows "value_of (GetBlockWinnerRewardByEra era blockReward h) =
           Some (winner_val (store h era) (store h blockReward))
     \<and> (\<forall>eraLength. eraLength < nxt h \<and> 0 < store h eraLength \<longrightarrow>
           value_of (GetBlockEra (Number header) eraLength h) =
             Some (era_val (store h (Number header)) (store h eraLength)))
     \<and> (store h era = 0 \<longrightarrow>
           value_of (GetBlockUncleRewardByEra era header uncle blockReward h) =
             Some (store h blockReward * (store h (Number uncle) + 8 - store h (Number header)) div 8))
     \<and> (1 \<le> store h era \<longrightarrow>
           value_of (GetBlockUncleRewardByEra era header uncle blockReward h) =
             Some (winner_val (store h era) (store h blockReward) div 32))
     \<and> value_of (GetBlockWinnerRewardForUnclesByEra era uncles blockReward h) =
           Some (int (length uncles) * (winner_val (store h era) (store h blockReward) div 32))
     \<and> (\<forall>eraLen. GetEthashECIP1017EraRounds config = Some eraLen \<and> eraLen \<noteq> 0 \<longrightarrow>
          (let e = era_val (store h (Number header)) (uint eraLen);
               W = winner_val e (store h FrontierBlockReward)
           in rewards_of (ecip1017BlockReward config header uncles h) =
                Some (W + int (length uncles) * (W div 32),
                      map (\<lambda>u. if e = 0
                                then store h FrontierBlockReward *
                                     (store h (Number u) + 8 - store h (Number header)) div 8
                                else W div 32) uncles)))"
proof (intro conjI allI impI)
  from GetBlockWinnerRewardByEra_value[OF assms(1-3)]
  show "value_of (GetBlockWinnerRewardByEra era blockReward h) =
      Some (winner_val (store h era) (store h blockReward))"
    by (auto simp: value_of_def)
next
  fix eraLength
  assume "eraLength < nxt h \<and> 0 < store h eraLength"
  with GetBlockEra_value[OF assms(4), of eraLength]
  show "value_of (GetBlockEra (Number header) eraLength h) =
      Some (era_val (store h (Number header)) (store h eraLength))"
    by (auto simp: value_of_def)
next
  assume "store h era = 0"
  with GetBlockUncleRewardByEra_value[OF assms(1-5)]
  show "value_of (GetBlockUncleRewardByEra era header uncle blockReward h) =
      Some (store h blockReward * (store h (Number uncle) + 8 - store h (Number header)) div 8)"
    by (auto simp: value_of_def uncle_val_def mult.commute)
next
  assume "1 \<le> store h era"
  with GetBlockUncleRewardByEra_value[OF assms(1-5)]
  show "value_of (GetBlockUncleRewardByEra era header uncle blockReward h) =
      Some (winner_val (store h era) (store h blockReward) div 32)"
    by (auto simp: value_of_def uncle_val_def)
next
  from GetBlockWinnerRewardForUnclesByEra_value[OF assms(1-3), of uncles]
  show "value_of (GetBlockWinnerRewardForUnclesByEra era uncles blockReward h) =
      Some (int (length uncles) * (winner_val (store h era) (store h blockReward) div 32))"
    by (auto simp: value_of_def)
next
  fix eraLen
  assume "GetEthashECIP1017EraRounds config = Some eraLen \<and> eraLen \<noteq> 0"
  then have l: "GetEthashECIP1017EraRounds config = Some eraLen" "eraLen \<noteq> 0" by simp_all
  show "let e = era_val (store h (Number header)) (uint eraLen);
            W = winner_val e (store h FrontierBlockReward)
        in rewards_of (ecip1017BlockReward config header uncles h) =
             Some (W + int (length uncles) * (W div 32),
                   map (\<lambda>u. if e = 0
                             then store h FrontierBlockReward *
                                  (store h (Number u) + 8 - store h (Number header)) div 8
                             else W div 32) uncles)"
    unfolding Let_def ecip1017BlockReward_value[OF assms(1,4,6) l]
    by (simp add: uncle_val_def mult.commute)
qed

text \<open>
  C5 on a header 6 with the era length 5 (era 1), the Frontier reward
  \<open>5 * 10 ^ 18\<close> and two uncles.
\<close>

theorem era_path_rewards_witness:
  "rewards_of (ecip1017BlockReward
      \<lparr>IsEnabled = ecip1017_enabled, GetEthashECIP1017EraRounds = Some 5, GetEthashBlockRewardSchedule = []\<rparr>
      \<lparr>Number = 7\<rparr> [\<lparr>Number = 8\<rparr>, \<lparr>Number = 9\<rparr>]
      (heap_of [8, 32, 4, 5, 5000000000000000000, 3000000000000000000, 2000000000000000000, 6, 5, 4, 1, 0, 5]))
   = Some (4250000000000000000, [125000000000000000, 125000000000000000])
   \<and> value_of (GetBlockEra 7 12
      (heap_of [8, 32, 4, 5, 5000000000000000000, 3000000000000000000, 2000000000000000000, 6, 5, 4, 1, 0, 5]))
   = Some 1
   \<and> value_of (GetBlockUncleRewardByEra 10 \<lparr>Number = 7\<rparr> \<lparr>Number = 8\<rparr> 4
      (heap_of [8, 32, 4, 5, 5000000000000000000, 3000000000000000000, 2000000000000000000, 6, 5, 4, 1, 0, 5]))
   = Some 125000000000000000
   \<and> value_of (GetBlockWinnerRewardForUnclesByEra 10 [\<lparr>Number = 8\<rparr>, \<lparr>Number = 9\<rparr>] 4
      (heap_of [8, 32, 4, 5, 5000000000000000000, 3000000000000000000, 2000000000000000000, 6, 5, 4, 1, 0, 5]))
   = Some 250000000000000000
   \<and> value_of (GetBlockUncleRewardByEra 11 \<lparr>Number = 7\<rparr> \<lparr>Number = 8\<rparr> 4
      (heap_of [8, 32, 4, 5, 5000000000000000000, 3000000000000000000, 2000000000000000000, 6, 5, 4, 1, 0, 5]))
   = Some (5000000000000000000 * (5 + 8 - 6) div 8)"
proof -
  let ?c = "\<lparr>IsEnabled = ecip1017_enabled, GetEthashECIP1017EraRounds = Some (5 :: 64 word),
             GetEthashBlockRewardSchedule = ([] :: (64 word \<times> ptr) list)\<rparr>"
  let ?h = "heap_of [8, 32, 4, 5, 5000000000000000000, 3000000000000000000, 2000000000000000000, 6, 5, 4, 1, 0, 5]"
  let ?us = "[\<lparr>Number = 8\<rparr>, \<lparr>Number = 9\<rparr>]"
  have a: "globals_ok ?h" "10 < nxt ?h" "4 < nxt ?h"
    "Number \<lparr>Number = 7\<rparr> < nxt ?h" "Number \<lparr>Number = 8\<rparr> < nxt ?h" "\<forall>u\<in>set ?us. Number u < nxt ?h"
    and b: "11 < nxt ?h"
    by (simp_all add: example_heap)
  have l: "GetEthashECIP1017EraRounds ?c = Some 5 \<and> (5 :: 64 word) \<noteq> 0"
    "12 < nxt ?h \<and> 0 < store ?h 12" by (simp_all add: heap_of_def)
  have s: "store ?h 7 = 6" "store ?h 8 = 5" "store ?h 10 = 1" "store ?h 11 = 0" "store ?h 12 = 5"
    "store ?h 4 = 5000000000000000000" "store ?h FrontierBlockReward = 5000000000000000000"
    by (simp_all add: heap_of_def globals)
  have e: "era_val 6 5 = 1" "winner_val 1 5000000000000000000 = 4000000000000000000"
    by (simp_all add: era_val_def winner_val_def)
  from era_path_rewards[OF a, of ?c] l have
    "rewards_of (ecip1017BlockReward ?c \<lparr>Number = 7\<rparr> ?us ?h)
       = Some (4250000000000000000, [125000000000000000, 125000000000000000])"
    "value_of (GetBlockEra 7 12 ?h) = Some 1"
    "value_of (GetBlockUncleRewardByEra 10 \<lparr>Number = 7\<rparr> \<lparr>Number = 8\<rparr> 4 ?h) = Some 125000000000000000"
    "value_of (GetBlockWinnerRewardForUnclesByEra 10 ?us 4 ?h) = Some 250000000000000000"
    by (simp_all add: Let_def s e)
  moreover from era_path_rewards[OF a(1) b a(3-6), of ?c] have
    "value_of (GetBlockUncleRewardByEra 11 \<lparr>Number = 7\<rparr> \<lparr>Number = 8\<rparr> 4 ?h)
       = Some (5000000000000000000 * (5 + 8 - 6) div 8)"
    by (simp add: s)
  ultimately show ?thesis by simp
qed

subsection \<open>C8: nil arguments\<close>

text \<open>
  Claim C8. With a nil configurator or a nil block number \<open>EthashBlockReward\<close> returns
  the Frontier reward; it reads neither argument, and nothing can panic.
\<close>

theorem EthashBlockReward_nil_default:
  "EthashBlockReward None n h = FrontierBlockReward \<and>
   EthashBlockReward c None h = FrontierBlockReward"
  by (simp add: EthashBlockReward_def split: option.splits)

subsection \<open>C10: the reward functions mutate fresh integers only\<close>

text \<open>
  Claim C10. Each of \<open>GetRewards\<close>, \<open>ecip1017BlockReward\<close>,
  \<open>GetBlockWinnerRewardByEra\<close>, \<open>GetBlockWinnerRewardForUnclesByEra\<close> and
  \<open>GetBlockUncleRewardByEra\<close>, when it returns, leaves every integer that was allocated
  before the call as it was (\<open>frame\<close>), in particular its \<open>blockReward\<close> argument and
  the shared \<open>FrontierBlockReward\<close>, and returns pointers to integers allocated during
  the call.
\<close>

theorem reward_functions_frame:
  assumes "7 \<le> nxt h"
    and "era < nxt h" "blockReward < nxt h"
    and "Number header < nxt h" "Number uncle < nxt h" "\<forall>u\<in>set uncles. Number u < nxt h"
  shows "(GetRewards config header uncles h = Some ((reward, urs), h1) \<longrightarrow>
            frame h h1 \<and> nxt h \<le> reward \<and> reward < nxt h1 \<and> (\<forall>p\<in>set urs. nxt h \<le> p \<and> p < nxt h1)
            \<and> store h1 FrontierBlockReward = store h FrontierBlockReward)
     \<and> (ecip1017BlockReward config header uncles h = Some ((reward, urs), h1) \<longrightarrow>
            frame h h1 \<and> nxt h \<le> reward \<and> reward < nxt h1 \<and> (\<forall>p\<in>set urs. nxt h \<le> p \<and> p < nxt h1)
            \<and> store h1 FrontierBlockReward = store h FrontierBlockReward)
     \<and> (GetBlockWinnerRewardByEra era blockReward h = Some (z, h2) \<longrightarrow>
            frame h h2 \<and> nxt h \<le> z \<and> z < nxt h2 \<and> store h2 blockReward = store h blockReward)
     \<and> (GetBlockWinnerRewardForUnclesByEra era uncles blockReward h = Some (z, h2) \<longrightarrow>
            frame h h2 \<and> nxt h \<le> z \<and> z < nxt h2 \<and> store h2 blockReward = store h blockReward)
     \<and> (GetBlockUncleRewardByEra era header uncle blockReward h = Some (z, h2) \<longrightarrow>
            frame h h2 \<and> nxt h \<le> z \<and> z < nxt h2 \<and> store h2 blockReward = store h blockReward)"
proof -
  have F: "FrontierBlockReward < nxt h" using assms(1) by (simp add: globals)
  show ?thesis
  proof (intro conjI impI)
    assume r: "GetRewards config header uncles h = Some ((reward, urs), h1)"
    from GetRewards_frame[OF r assms(1,4,6)]
    show "frame h h1" "nxt h \<le> reward" "reward < nxt h1" "\<forall>p\<in>set urs. nxt h \<le> p \<and> p < nxt h1"
      by simp_all
    then show "store h1 FrontierBlockReward = store h FrontierBlockReward"
      using F by (simp add: frame_store)
  next
    assume r: "ecip1017BlockReward config header uncles h = Some ((reward, urs), h1)"
    from ecip1017BlockReward_frame[OF r assms(1,4,6)]
    show "frame h h1" "nxt h \<le> reward" "reward < nxt h1" "\<forall>p\<in>set urs. nxt h \<le> p \<and> p < nxt h1"
      by simp_all
    then show "store h1 FrontierBlockReward = store h FrontierBlockReward"
      using F by (simp add: frame_store)
  next
    assume r: "GetBlockWinnerRewardByEra era blockReward h = Some (z, h2)"
    from GetBlockWinnerRewardByEra_frame[OF r assms(2,3,1)]
    show "frame h h2" "nxt h \<le> z" "z < nxt h2" by simp_all
    then show "store h2 blockReward = store h blockReward"
      using assms(3) by (simp add: frame_store)
  next
    assume r: "GetBlockWinnerRewardForUnclesByEra era uncles blockReward h = Some (z, h2)"
    from GetBlockWinnerRewardForUnclesByEra_frame[OF r assms(2,3,1)]
    show "frame h h2" "nxt h \<le> z" "z < nxt h2" by simp_all
    then show "store h2 blockReward = store h blockReward"
      using assms(3) by (simp add: frame_store)
  next
    assume r: "GetBlockUncleRewardByEra era header uncle blockReward h = Some (z, h2)"
    from GetBlockUncleRewardByEra_frame[OF r assms(2,3,1,4,5)]
    show "frame h h2" "nxt h \<le> z" "z < nxt h2" by simp_all
    then show "store h2 blockReward = store h blockReward"
      using assms(3) by (simp add: frame_store)
  qed
qed

text \<open>
  C10 on a heap with the Frontier reward \<open>5 * 10 ^ 18\<close>: after each of the five
  functions has run, the Frontier reward is still \<open>5 * 10 ^ 18\<close>.
\<close>

theorem reward_functions_frame_witness:
  "map_option (\<lambda>(r, h'). store h' FrontierBlockReward)
     (GetRewards
        \<lparr>IsEnabled = never_enabled, GetEthashECIP1017EraRounds = Some 5, GetEthashBlockRewardSchedule = []\<rparr>
        \<lparr>Number = 7\<rparr> [\<lparr>Number = 8\<rparr>]
        (heap_of [8, 32, 4, 5, 5000000000000000000, 3000000000000000000, 2000000000000000000, 6, 5, 1]))
    = Some 5000000000000000000
   \<and> map_option (\<lambda>(r, h'). store h' FrontierBlockReward)
     (ecip1017BlockReward
        \<lparr>IsEnabled = never_enabled, GetEthashECIP1017EraRounds = Some 5, GetEthashBlockRewardSchedule = []\<rparr>
        \<lparr>Number = 7\<rparr> [\<lparr>Number = 8\<rparr>]
        (heap_of [8, 32, 4, 5, 5000000000000000000, 3000000000000000000, 2000000000000000000, 6, 5, 1]))
    = Some 5000000000000000000
   \<and> map_option (\<lambda>(r, h'). store h' FrontierBlockReward)
     (GetBlockWinnerRewardByEra 9 FrontierBlockReward
        (heap_of [8, 32, 4, 5, 5000000000000000000, 3000000000000000000, 2000000000000000000, 6, 5, 1]))
    = Some 5000000000000000000
   \<and> map_option (\<lambda>(r, h'). store h' FrontierBlockReward)
     (GetBlockWinnerRewardForUnclesByEra 9 [\<lparr>Number = 8\<rparr>] FrontierBlockReward
        (heap_of [8, 32, 4, 5, 5000000000000000000, 3000000000000000000, 2000000000000000000, 6, 5, 1]))
    = Some 5000000000000000000
   \<and> map_option (\<lambda>(r, h'). store h' FrontierBlockReward)
     (GetBlockUncleRewardByEra 9 \<lparr>Number = 7\<rparr> \<lparr>Number = 8\<rparr> FrontierBlockReward
        (heap_of [8, 32, 4, 5, 5000000000000000000, 3000000000000000000, 2000000000000000000, 6, 5, 1]))
    = Some 5000000000000000000"
proof -
  let ?c = "\<lparr>IsEnabled = never_enabled, GetEthashECIP1017EraRounds = Some (5 :: 64 word),
             GetEthashBlockRewardSchedule = ([] :: (64 word \<times> ptr) list)\<rparr>"
  let ?h = "heap_of [8, 32, 4, 5, 5000000000000000000, 3000000000000000000, 2000000000000000000, 6, 5, 1]"
  let ?hd = "\<lparr>Number = 7\<rparr>" and ?u = "\<lparr>Number = 8\<rparr>"
  have ok: "globals_ok ?h" by (simp add: example_heap)
  have a: "7 \<le> nxt ?h" "9 < nxt ?h" "FrontierBlockReward < nxt ?h"
    "Number ?hd < nxt ?h" "Number ?u < nxt ?h" "\<forall>u\<in>set [?u]. Number u < nxt ?h"
    by (simp_all add: example_heap)
  have F: "store ?h FrontierBlockReward = 5000000000000000000" by (simp add: example_heap)
  note fr = reward_functions_frame[OF a, of ?c]
  have "\<not> IsEnabled ?c GetEthashECIP1017Transition (store ?h (Number ?hd))"
    "\<forall>p\<in>snd ` set (GetEthashBlockRewardSchedule ?c). p < nxt ?h"
    by (simp_all add: never_enabled_def)
  from rewards_of_SomeD[OF GetRewards_flat_value[OF ok this(1) a(4,6) this(2)]]
  obtain r1 us1 g1 where "GetRewards ?c ?hd [?u] ?h = Some ((r1, us1), g1)" by blast
  with fr F have 1: "map_option (\<lambda>(r, h'). store h' FrontierBlockReward) (GetRewards ?c ?hd [?u] ?h)
      = Some 5000000000000000000" by simp
  have "GetEthashECIP1017EraRounds ?c = Some 5" "(5 :: 64 word) \<noteq> 0" by simp_all
  from rewards_of_SomeD[OF ecip1017BlockReward_value[OF ok a(4,6) this]]
  obtain r2 us2 g2 where "ecip1017BlockReward ?c ?hd [?u] ?h = Some ((r2, us2), g2)" by blast
  with fr F have 2: "map_option (\<lambda>(r, h'). store h' FrontierBlockReward) (ecip1017BlockReward ?c ?hd [?u] ?h)
      = Some 5000000000000000000" by simp
  from GetBlockWinnerRewardByEra_value[OF ok a(2,3)]
  obtain z3 g3 where "GetBlockWinnerRewardByEra 9 FrontierBlockReward ?h = Some (z3, g3)" by blast
  with fr F have 3: "map_option (\<lambda>(r, h'). store h' FrontierBlockReward)
      (GetBlockWinnerRewardByEra 9 FrontierBlockReward ?h) = Some 5000000000000000000" by simp
  from GetBlockWinnerRewardForUnclesByEra_value[OF ok a(2,3), of "[?u]"]
  obtain z4 g4 where "GetBlockWinnerRewardForUnclesByEra 9 [?u] FrontierBlockReward ?h = Some (z4, g4)" by blast
  with fr F have 4: "map_option (\<lambda>(r, h'). store h' FrontierBlockReward)
      (GetBlockWinnerRewardForUnclesByEra 9 [?u] FrontierBlockReward ?h) = Some 5000000000000000000" by simp
  from GetBlockUncleRewardByEra_value[OF ok a(2,3,4,5)]
  obtain z5 g5 where "GetBlockUncleRewardByEra 9 ?hd ?u FrontierBlockReward ?h = Some (z5, g5)" by blast
  with fr F have 5: "map_option (\<lambda>(r, h'). store h' FrontierBlockReward)
      (GetBlockUncleRewardByEra 9 ?hd ?u FrontierBlockReward ?h) = Some 5000000000000000000" by simp
  from 1 2 3 4 5 show ?thesis by simp
qed

section \<open>Lemmas about the LRU container\<close>

subsection \<open>Chains of pointers\<close>

lemma links_append: "links f (xs @ y # z # zs) \<longleftrightarrow> links f (xs @ [y]) \<and> links f (y # z # zs)"
  by (induction f xs rule: links.induct) (auto simp: neq_Nil_conv)

lemma links_upd: "a \<notin> set (butlast zs) \<Longrightarrow> links (f(a := v)) zs \<longleftrightarrow> links f zs"
  by (induction f zs rule: links.induct) auto

lemma links_head: "links f (a # zs) \<Longrightarrow> zs \<noteq> [] \<Longrightarrow> f a = Some (hd zs)"
  by (cases zs) auto

lemma links_mid: "links f (us @ a # b # ws) \<Longrightarrow> f a = Some b"
  by (simp add: links_append)

lemma links_unlink:
  assumes "links f (us @ p # e # n # ws)" "p \<notin> set us" "p \<notin> set (butlast (n # ws))"
  shows "links (f(p := Some n)) (us @ p # n # ws)"
proof -
  from assms(1) have a: "links f (us @ [p])" "links f (n # ws)"
    by (simp_all add: links_append)
  have "links (f(p := Some n)) (us @ [p])" using a(1) assms(2) by (simp add: links_upd)
  moreover have "links (f(p := Some n)) (n # ws)" using a(2) assms(3) by (simp add: links_upd)
  ultimately show ?thesis by (simp add: links_append)
qed

lemma links_push:
  assumes "links f (r # ws)" "ws \<noteq> []" "e \<noteq> r" "e \<notin> set (butlast ws)" "r \<notin> set (butlast ws)"
  shows "links (f(e := f r, r := Some e)) (r # e # ws)"
proof -
  from assms(1,2) have h: "f r = Some (hd ws)" by (rule links_head)
  have "links f ws" using assms(1,2) by (cases ws) auto
  then have "links (f(e := f r, r := Some e)) ws" using assms(4,5) by (simp add: links_upd)
  then show ?thesis using h assms(2,3) by (cases ws) auto
qed

lemma links_snoc:
  assumes "links f (us @ [n, r])" "n \<notin> set us" "e \<notin> set us" "e \<noteq> n"
  shows "links (f(e := Some r, n := Some e)) (us @ [n, e, r])"
proof -
  from assms(1) have "links f (us @ [n])" by (simp add: links_append)
  then have "links (f(e := Some r, n := Some e)) (us @ [n])" using assms(2,3) by (simp add: links_upd)
  then show ?thesis using assms(4) by (simp add: links_append)
qed

lemma links_at: "links f (xs @ e # ys) \<Longrightarrow> ys \<noteq> [] \<Longrightarrow> f e = Some (hd ys)"
  by (cases ys) (auto dest: links_mid)

lemma links_unlink':
  assumes "links f (xs @ e # ys)" "xs \<noteq> []" "ys \<noteq> []"
    and "last xs \<notin> set (butlast xs)" "last xs \<notin> set (butlast ys)"
  shows "links (f(last xs := Some (hd ys))) (xs @ ys)"
proof -
  obtain us p where xs: "xs = us @ [p]" using assms(2) by (cases xs rule: rev_cases) auto
  obtain n ws where ys: "ys = n # ws" using assms(3) by (cases ys) auto
  from links_unlink[of f us p e n ws] assms xs ys show ?thesis by simp
qed

lemma links_snoc':
  assumes "links f (xs @ [r])" "xs \<noteq> []" "last xs \<notin> set (butlast xs)" "e \<notin> set xs"
  shows "links (f(e := Some r, last xs := Some e)) (xs @ [e, r])"
proof -
  obtain us n where xs: "xs = us @ [n]" using assms(2) by (cases xs rule: rev_cases) auto
  from links_snoc[of f us n r e] assms xs show ?thesis by auto
qed

lemma last_root_rev: "last (r # rev bs) = hd (bs @ [r])"
  by (cases bs) auto

lemma hd_rev_root: "hd (rev as @ [r]) = last (r # as)"
  by (cases as rule: rev_cases) auto

lemma distinct_last_butlast: "distinct xs \<Longrightarrow> xs \<noteq> [] \<Longrightarrow> last xs \<notin> set (butlast xs)"
  by (cases xs rule: rev_cases) auto

lemma dll_next_root: "dll l xs \<Longrightarrow> elem_next l root = Some (hd (xs @ [root]))"
  by (auto simp: dll_def dest: links_head)

lemma dll_prev_root: "dll l xs \<Longrightarrow> elem_prev l root = Some (last (root # xs))"
  using links_head[of "elem_prev l" root "rev xs @ [root]"]
  by (simp add: dll_def hd_rev_root del: last.simps)

lemma dll_next: "dll l (as @ e # bs) \<Longrightarrow> elem_next l e = Some (hd (bs @ [root]))"
  using links_at[of "elem_next l" "root # as" e "bs @ [root]"] by (simp add: dll_def)

lemma dll_prev: "dll l (as @ e # bs) \<Longrightarrow> elem_prev l e = Some (last (root # as))"
  using links_at[of "elem_prev l" "root # rev bs" e "rev as @ [root]"]
  by (simp add: dll_def hd_rev_root del: last.simps)

lemma dll_newList: "dll newList []"
  by (simp add: dll_def newList_def list_init_def Let_def)

lemma dll_list_init: "dll (list_init l) []"
  by (simp add: dll_def list_init_def Let_def)

lemma dll_unlink:
  assumes d: "dll l (as @ e # bs)"
  defines "p \<equiv> last (root # as)" and "n \<equiv> hd (bs @ [root])"
  defines "l1 \<equiv> l\<lparr>elem_next := (elem_next l)(p := elem_next l e)\<rparr>"
  defines "l2 \<equiv> l1\<lparr>elem_prev := (elem_prev l1)(n := elem_prev l1 e)\<rparr>"
  shows "dll l2 (as @ bs)"
proof -
  have ne: "elem_next l e = Some n" using dll_next[OF d] by (simp add: n_def)
  have pe: "elem_prev l e = Some p" using dll_prev[OF d] by (simp add: p_def)
  from d have dist: "distinct (root # as @ e # bs)"
    and ln: "links (elem_next l) ((root # as) @ e # (bs @ [root]))"
    and lp: "links (elem_prev l) ((root # rev bs) @ e # (rev as @ [root]))"
    by (simp_all add: dll_def)
  have 1: "links ((elem_next l)(last (root # as) := Some (hd (bs @ [root])))) ((root # as) @ (bs @ [root]))"
  proof (rule links_unlink'[OF ln])
    show "last (root # as) \<notin> set (butlast (root # as))"
      using dist by (intro distinct_last_butlast) auto
    have "last (root # as) \<in> set (root # as)" by (rule last_in_set) simp
    then show "last (root # as) \<notin> set (butlast (bs @ [root]))" using dist by auto
  qed simp_all
  have 2: "links ((elem_prev l)(last (root # rev bs) := Some (hd (rev as @ [root])))) ((root # rev bs) @ (rev as @ [root]))"
  proof (rule links_unlink'[OF lp])
    show "last (root # rev bs) \<notin> set (butlast (root # rev bs))"
      using dist by (intro distinct_last_butlast) auto
    have "last (root # rev bs) \<in> set (root # rev bs)" by (rule last_in_set) simp
    then show "last (root # rev bs) \<notin> set (butlast (rev as @ [root]))" using dist by auto
  qed simp_all
  have "elem_next l2 = (elem_next l)(p := Some n)" "elem_prev l2 = (elem_prev l)(n := Some p)"
    by (simp_all add: l2_def l1_def ne pe)
  with 1 2 dist show ?thesis
    by (simp add: dll_def p_def n_def last_root_rev hd_rev_root del: last.simps)
qed

lemma dll_pushElem:
  assumes d: "dll l xs" and e: "e \<notin> set xs" "e \<noteq> root"
  shows "\<exists>l'. pushElem e l = Some l' \<and> dll l' (e # xs)
      \<and> elem_v l' = elem_v l \<and> elem_alloc l' = elem_alloc l"
proof -
  let ?n = "hd (xs @ [root])"
  have nr: "elem_next l root = Some ?n" using d by (rule dll_next_root)
  from d have dist: "distinct (root # xs)"
    and ln: "links (elem_next l) (root # (xs @ [root]))"
    and lp: "links (elem_prev l) ((root # rev xs) @ [root])"
    by (simp_all add: dll_def)
  have 1: "links ((elem_next l)(e := elem_next l root, root := Some e)) (root # e # (xs @ [root]))"
    using ln e dist by (intro links_push) auto
  have 2: "links ((elem_prev l)(e := Some root, last (root # rev xs) := Some e)) ((root # rev xs) @ [e, root])"
  proof (rule links_snoc'[OF lp])
    show "last (root # rev xs) \<notin> set (butlast (root # rev xs))"
      using dist by (intro distinct_last_butlast) auto
    show "e \<notin> set (root # rev xs)" using e by auto
  qed simp
  have "pushElem e l = Some (l\<lparr>elem_prev := (elem_prev l)(e := Some root, ?n := Some e),
      elem_next := (elem_next l)(e := elem_next l root, root := Some e)\<rparr>)"
    using nr e(2) by (simp add: pushElem_def Let_def)
  with 1 2 dist e show ?thesis
    by (simp add: dll_def last_root_rev del: last.simps)
qed

lemma dll_moveToFront:
  assumes d: "dll l (as @ e # bs)"
  shows "\<exists>l'. moveToFront e l = Some l' \<and> dll l' (e # as @ bs)
      \<and> elem_v l' = elem_v l \<and> elem_alloc l' = elem_alloc l"
proof -
  let ?p = "last (root # as)" and ?n = "hd (bs @ [root])"
  let ?l1 = "l\<lparr>elem_next := (elem_next l)(?p := elem_next l e)\<rparr>"
  let ?l2 = "?l1\<lparr>elem_prev := (elem_prev ?l1)(?n := elem_prev ?l1 e)\<rparr>"
  have u: "dll ?l2 (as @ bs)" using d by (rule dll_unlink)
  from d have dist: "distinct (root # as @ e # bs)" by (simp add: dll_def)
  have pn: "?p \<noteq> e" 
  proof -
    have "?p \<in> set (root # as)" by (rule last_in_set) simp
    then show ?thesis using dist by auto
  qed
  have "\<exists>l'. pushElem e ?l2 = Some l' \<and> dll l' (e # as @ bs)
      \<and> elem_v l' = elem_v ?l2 \<and> elem_alloc l' = elem_alloc ?l2"
    using u dist by (intro dll_pushElem) auto
  moreover have "moveToFront e l = pushElem e ?l2"
    using dll_next[OF d] dll_prev[OF d] pn by (simp add: moveToFront_def Let_def del: last.simps)
  ultimately show ?thesis by simp
qed

lemma dll_list_remove:
  assumes d: "dll l (as @ e # bs)"
  shows "\<exists>l'. list_remove e l = Some l' \<and> dll l' (as @ bs)
      \<and> elem_v l' = elem_v l \<and> elem_alloc l' = elem_alloc l"
proof -
  let ?p = "last (root # as)" and ?n = "hd (bs @ [root])"
  let ?l1 = "l\<lparr>elem_next := (elem_next l)(?p := elem_next l e)\<rparr>"
  let ?l2 = "?l1\<lparr>elem_prev := (elem_prev ?l1)(?n := elem_prev ?l1 e)\<rparr>"
  let ?l3 = "?l2\<lparr>elem_next := (elem_next ?l2)(e := None), elem_prev := (elem_prev ?l2)(e := None)\<rparr>"
  have u: "dll ?l2 (as @ bs)" using d by (rule dll_unlink)
  from d have dist: "distinct (root # as @ e # bs)" by (simp add: dll_def)
  have pn: "?p \<noteq> e" 
  proof -
    have "?p \<in> set (root # as)" by (rule last_in_set) simp
    then show ?thesis using dist by auto
  qed
  have e1: "e \<notin> set (butlast (root # (as @ bs) @ [root]))"
    and e2: "e \<notin> set (butlast (root # rev (as @ bs) @ [root]))"
    using dist by (auto simp: butlast_append)
  have "links (elem_next ?l3) (root # (as @ bs) @ [root])"
    using u links_upd[OF e1, of "elem_next ?l2" None] by (simp add: dll_def del: last.simps)
  moreover have "links (elem_prev ?l3) (root # rev (as @ bs) @ [root])"
    using u links_upd[OF e2, of "elem_prev ?l2" None] by (simp add: dll_def del: last.simps)
  ultimately have "dll ?l3 (as @ bs)"
    using dist by (simp add: dll_def del: last.simps)
  moreover have "list_remove e l = Some ?l3"
    using dll_next[OF d] dll_prev[OF d] pn by (simp add: list_remove_def Let_def del: last.simps)
  ultimately show ?thesis by simp
qed

lemma dll_list_last:
  assumes "dll l xs"
  shows "list_last l = (if xs = [] then None else Some (last xs))"
proof (cases "xs = []")
  case True
  with dll_prev_root[OF assms] show ?thesis by (simp add: list_last_def)
next
  case False
  then have "last xs \<in> set xs" by (rule last_in_set)
  then have "last xs \<noteq> root" using assms by (auto simp: dll_def)
  with False dll_prev_root[OF assms] show ?thesis by (simp add: list_last_def)
qed

subsection \<open>The container operations keep the invariant\<close>

lemma appendTo_loop_chain:
  assumes "links (elem_prev l) (a # ys @ [root])" "root \<notin> set (a # ys)"
  shows "appendTo_loop l (Some a) out = Some (out @ map (elem_v l) (a # ys))"
  using assms
proof (induction ys arbitrary: a out)
  case Nil
  then show ?case by (simp add: appendTo_loop.simps[of l "Some a"] appendTo_loop.simps[of l "Some root"])
next
  case (Cons y ys)
  from Cons.prems have "elem_prev l a = Some y" "links (elem_prev l) (y # ys @ [root])" "root \<notin> set (y # ys)" "a \<noteq> root"
    by auto
  with Cons.IH[of y "out @ [elem_v l a]"] show ?case
    by (simp add: appendTo_loop.simps[of l "Some a"])
qed

lemma dll_appendTo:
  assumes "dll l xs"
  shows "appendTo l out = Some (out @ rev (map (elem_v l) xs))"
proof (cases xs rule: rev_cases)
  case Nil
  with dll_prev_root[OF assms] show ?thesis
    by (simp add: appendTo_def appendTo_loop.simps[of l "Some root"])
next
  case (snoc ys y)
  with assms have "links (elem_prev l) (y # rev ys @ [root])" "root \<notin> set (y # rev ys)"
    and "elem_prev l root = Some y"
    by (auto simp: dll_def)
  with appendTo_loop_chain[of l y "rev ys" out] snoc show ?thesis
    by (simp add: appendTo_def rev_map)
qed

lemma lru_inv_Len:
  assumes "lru_inv c ks"
  shows "Len c = int (length ks)"
proof -
  from assms have "fmdom' (items c) = set ks" "distinct ks" by (auto simp: lru_inv_def)
  then have "card (fset (fmdom (items c))) = length ks"
    by (simp add: fmdom'_alt_def distinct_card)
  then show ?thesis by (simp add: Len_def fcard.rep_eq)
qed

lemma lru_inv_New: "lru_inv (NewBasicLRU capacity) []"
  by (auto simp: lru_inv_def NewBasicLRU_def Let_def dll_newList intro!: exI[of _ "[]"])
     (simp_all add: newList_def list_init_def Let_def root_def)

lemma lru_inv_Keys: "lru_inv c ks \<Longrightarrow> Keys c = Some (rev ks)"
  by (auto simp: lru_inv_def Keys_def dll_appendTo rev_map)

lemma lru_inv_lookup:
  assumes "dll l xs" "map (elem_v l) xs = ks" "distinct ks" "fmdom' m = set ks"
    and "\<forall>x\<in>set xs. \<exists>v. fmlookup m (elem_v l x) = Some (x, v)"
    and "fmlookup m key = Some (e, old)"
  shows "\<exists>as bs. xs = as @ e # bs \<and> elem_v l e = key \<and> key \<in> set ks"
proof -
  from assms(6) have "key \<in> fmdom' m" by (rule fmdom'I)
  with assms(2,4) obtain x where x: "x \<in> set xs" "elem_v l x = key" by auto
  with assms(5,6) have "x = e" by auto
  with x obtain as bs where "xs = as @ e # bs" by (auto dest: split_list)
  with x \<open>x = e\<close> assms(2) show ?thesis by auto
qed

lemma Add_present:
  assumes inv: "lru_inv c ks" and key: "key \<in> set ks"
  shows "\<exists>c'. Add key v c = Some (False, c') \<and> lru_inv c' (key # remove1 key ks) \<and> cap c' = cap c"
proof -
  let ?l = "list c"
  from inv obtain xs where d: "dll ?l xs" and al: "root < elem_alloc ?l" "\<forall>x\<in>set xs. x < elem_alloc ?l"
    and ks: "map (elem_v ?l) xs = ks" and dist: "distinct ks" and dom: "fmdom' (items c) = set ks"
    and pair: "\<forall>x\<in>set xs. \<exists>v. fmlookup (items c) (elem_v ?l x) = Some (x, v)"
    and cp: "1 \<le> cap c" "int (length ks) \<le> cap c"
    by (auto simp: lru_inv_def)
  from key dom have "key \<in> fmdom' (items c)" by simp
  then obtain e old where lk: "fmlookup (items c) key = Some (e, old)"
    by (fastforce simp: fmlookup_dom'_iff)
  from lru_inv_lookup[OF d ks dist dom pair lk] obtain as bs where
    xs: "xs = as @ e # bs" and ve: "elem_v ?l e = key" by blast
  from dll_moveToFront[OF d[unfolded xs]] obtain l' where
    m: "moveToFront e ?l = Some l'" and d': "dll l' (e # as @ bs)"
    and v': "elem_v l' = elem_v ?l" and a': "elem_alloc l' = elem_alloc ?l" by blast
  let ?c' = "c\<lparr>items := fmupd key (e, v) (items c), list := l'\<rparr>"
  have run: "Add key v c = Some (False, ?c')"
    using lk m by (simp add: Add_def)
  have k': "map (elem_v l') (e # as @ bs) = key # remove1 key ks"
    using ks dist ve by (auto simp: xs v' remove1_append)
  have other: "\<forall>x\<in>set as \<union> set bs. elem_v ?l x \<noteq> key"
  proof
    fix x assume "x \<in> set as \<union> set bs"
    then have "elem_v ?l x \<in> set (map (elem_v ?l) as @ map (elem_v ?l) bs)" by auto
    moreover have "distinct (map (elem_v ?l) as @ key # map (elem_v ?l) bs)"
      using ks dist ve by (simp add: xs)
    ultimately show "elem_v ?l x \<noteq> key" by auto
  qed
  have "lru_inv ?c' (key # remove1 key ks)"
    unfolding lru_inv_def
  proof (intro exI[of _ "e # as @ bs"] conjI)
    show "dll (list ?c') (e # as @ bs)" using d' by simp
    show "root < elem_alloc (list ?c')" using al a' by simp
    show "\<forall>x\<in>set (e # as @ bs). x < elem_alloc (list ?c')" using al a' xs by auto
    show "map (elem_v (list ?c')) (e # as @ bs) = key # remove1 key ks" using k' by simp
    show "distinct (key # remove1 key ks)" using dist by auto
    show "fmdom' (items ?c') = set (key # remove1 key ks)" using dom key dist by auto
    show "\<forall>x\<in>set (e # as @ bs). \<exists>va. fmlookup (items ?c') (elem_v (list ?c') x) = Some (x, va)"
      using pair xs ve v' other by auto
    show "1 \<le> cap ?c'" using cp by simp
    show "int (length (key # remove1 key ks)) \<le> cap ?c'"
      using cp key by (simp add: length_remove1)
  qed
  with run show ?thesis by auto
qed

lemma Add_absent_room:
  assumes inv: "lru_inv c ks" and key: "key \<notin> set ks" and room: "int (length ks) < cap c"
  shows "\<exists>c'. Add key v c = Some (False, c') \<and> lru_inv c' (key # ks) \<and> cap c' = cap c"
proof -
  let ?l = "list c"
  from inv obtain xs where d: "dll ?l xs" and al: "root < elem_alloc ?l" "\<forall>x\<in>set xs. x < elem_alloc ?l"
    and ks: "map (elem_v ?l) xs = ks" and dist: "distinct ks" and dom: "fmdom' (items c) = set ks"
    and pair: "\<forall>x\<in>set xs. \<exists>v. fmlookup (items c) (elem_v ?l x) = Some (x, v)"
    and cp: "1 \<le> cap c" "int (length ks) \<le> cap c"
    by (auto simp: lru_inv_def)
  from key dom have "key \<notin> fmdom' (items c)" by simp
  then have lk: "fmlookup (items c) key = None" by (rule fmdom'_notD)
  let ?e = "elem_alloc ?l"
  let ?l1 = "snd (new_listElem ?l)\<lparr>elem_v := (elem_v (snd (new_listElem ?l)))(?e := key)\<rparr>"
  have e: "?e \<notin> set xs" "?e \<noteq> root" using al by auto
  have d1: "dll ?l1 xs"
  proof -
    have "?e \<notin> set (butlast (root # xs @ [root]))" "?e \<notin> set (butlast (root # rev xs @ [root]))"
      using e by (auto simp: butlast_append)
    from links_upd[OF this(1), of "elem_next ?l" None] links_upd[OF this(2), of "elem_prev ?l" None] d
    show ?thesis by (simp add: dll_def new_listElem_def)
  qed
  from dll_pushElem[OF d1 e] obtain l' where
    p: "pushElem ?e ?l1 = Some l'" and d': "dll l' (?e # xs)"
    and v': "elem_v l' = elem_v ?l1" and a': "elem_alloc l' = elem_alloc ?l1" by blast
  let ?c' = "c\<lparr>list := l', items := fmupd key (?e, v) (items c)\<rparr>"
  have ln: "\<not> cap c \<le> Len c" using room lru_inv_Len[OF inv] by simp
  have run: "Add key v c = Some (False, ?c')"
    using lk ln p by (simp add: Add_def new_listElem_def Let_def)
  have vs: "elem_v l' ?e = key" "\<forall>x\<in>set xs. elem_v l' x = elem_v ?l x"
    using e by (auto simp: v' new_listElem_def)
  have "lru_inv ?c' (key # ks)"
    unfolding lru_inv_def
  proof (intro exI[of _ "?e # xs"] conjI)
    show "dll (list ?c') (?e # xs)" using d' by simp
    show "root < elem_alloc (list ?c')" using al a' by (simp add: new_listElem_def)
    show "\<forall>x\<in>set (?e # xs). x < elem_alloc (list ?c')" using al a' by (auto simp: new_listElem_def)
    show "map (elem_v (list ?c')) (?e # xs) = key # ks" using ks vs by (auto intro: map_cong)
    show "distinct (key # ks)" using dist key by simp
    show "fmdom' (items ?c') = set (key # ks)" using dom by simp
    show "\<forall>x\<in>set (?e # xs). \<exists>va. fmlookup (items ?c') (elem_v (list ?c') x) = Some (x, va)"
      using pair vs ks key by auto
    show "1 \<le> cap ?c'" using cp by simp
    show "int (length (key # ks)) \<le> cap ?c'" using room by simp
  qed
  with run show ?thesis by auto
qed

lemma distinct_mid_neq: "distinct (A @ k # B) \<Longrightarrow> y \<in> set (A @ B) \<Longrightarrow> y \<noteq> k"
  by auto

lemma dll_elem_v_upd: "dll (l\<lparr>elem_v := w\<rparr>) xs \<longleftrightarrow> dll l xs"
  by (simp add: dll_def)

lemma set_butlast_distinct: "distinct ks \<Longrightarrow> ks \<noteq> [] \<Longrightarrow> set (butlast ks) = set ks - {last ks}"
  by (cases ks rule: rev_cases) auto

lemma Add_absent_full:
  assumes inv: "lru_inv c ks" and key: "key \<notin> set ks" and full: "cap c \<le> int (length ks)"
  shows "\<exists>c'. Add key v c = Some (True, c') \<and> lru_inv c' (key # butlast ks) \<and> cap c' = cap c"
proof -
  let ?l = "list c"
  from inv obtain xs where d: "dll ?l xs" and al: "root < elem_alloc ?l" "\<forall>x\<in>set xs. x < elem_alloc ?l"
    and ks: "map (elem_v ?l) xs = ks" and dist: "distinct ks" and dom: "fmdom' (items c) = set ks"
    and pair: "\<forall>x\<in>set xs. \<exists>v. fmlookup (items c) (elem_v ?l x) = Some (x, v)"
    and cp: "1 \<le> cap c" "int (length ks) \<le> cap c"
    by (auto simp: lru_inv_def)
  from key dom have "key \<notin> fmdom' (items c)" by simp
  then have lk: "fmlookup (items c) key = None" by (rule fmdom'_notD)
  from full cp ks have "xs \<noteq> []" by auto
  then obtain ys y where xs: "xs = ys @ [y]" by (cases xs rule: rev_cases) auto
  have lst: "list_last ?l = Some y" using dll_list_last[OF d] xs by simp
  from dll_list_remove[of ?l ys y "[]"] d xs obtain l1 where
    r: "list_remove y ?l = Some l1" and d1: "dll l1 ys"
    and v1: "elem_v l1 = elem_v ?l" and a1: "elem_alloc l1 = elem_alloc ?l" by auto
  let ?l2 = "l1\<lparr>elem_v := (elem_v l1)(y := key)\<rparr>"
  have y: "y \<notin> set ys" "y \<noteq> root" using d by (auto simp: dll_def xs)
  have d2: "dll ?l2 ys" using d1 by (simp add: dll_elem_v_upd)
  from dll_pushElem[OF d2 y] obtain l' where
    p: "pushElem y ?l2 = Some l'" and d': "dll l' (y # ys)"
    and v': "elem_v l' = elem_v ?l2" and a': "elem_alloc l' = elem_alloc ?l2" by blast
  have lastk: "elem_v ?l y = last ks" "butlast ks = map (elem_v ?l) ys" "ks \<noteq> []"
    using ks by (auto simp: xs)
  let ?c' = "c\<lparr>list := l', items := fmupd key (y, v) (fmdrop (last ks) (items c))\<rparr>"
  have ln: "cap c \<le> Len c" using full lru_inv_Len[OF inv] by simp
  have run: "Add key v c = Some (True, ?c')"
    using lk ln lst r p v1 lastk(1) by (simp add: Add_def removeLast_def Let_def)
  have vs: "elem_v l' y = key" "\<forall>x\<in>set ys. elem_v l' x = elem_v ?l x"
    using y by (auto simp: v' v1)
  have other: "\<forall>x\<in>set ys. elem_v ?l x \<noteq> key \<and> elem_v ?l x \<noteq> last ks"
  proof
    fix x assume "x \<in> set ys"
    then have "elem_v ?l x \<in> set (butlast ks)" using lastk(2) by simp
    moreover have "set (butlast ks) = set ks - {last ks}"
      using dist lastk(3) by (rule set_butlast_distinct)
    ultimately show "elem_v ?l x \<noteq> key \<and> elem_v ?l x \<noteq> last ks" using key by auto
  qed
  have "lru_inv ?c' (key # butlast ks)"
    unfolding lru_inv_def
  proof (intro exI[of _ "y # ys"] conjI)
    show "dll (list ?c') (y # ys)" using d' by simp
    show "root < elem_alloc (list ?c')" using al a' a1 by simp
    show "\<forall>x\<in>set (y # ys). x < elem_alloc (list ?c')" using al a' a1 xs by auto
    show "map (elem_v (list ?c')) (y # ys) = key # butlast ks" using lastk(2) vs by (auto intro: map_cong)
    show "distinct (key # butlast ks)" using dist key by (auto simp: distinct_butlast dest: in_set_butlastD)
    show "fmdom' (items ?c') = set (key # butlast ks)"
      using dom set_butlast_distinct[OF dist lastk(3)] by auto
    show "\<forall>x\<in>set (y # ys). \<exists>va. fmlookup (items ?c') (elem_v (list ?c') x) = Some (x, va)"
      using pair vs other xs by auto
    show "1 \<le> cap ?c'" using cp by simp
    show "int (length (key # butlast ks)) \<le> cap ?c'" using cp lastk(3) by simp
  qed
  with run show ?thesis by auto
qed

lemma Get_inv:
  assumes inv: "lru_inv c ks"
  shows "\<exists>r c'. Get key c = Some (r, c') \<and> cap c' = cap c
     \<and> lru_inv c' (if key \<in> set ks then key # remove1 key ks else ks)"
proof (cases "key \<in> set ks")
  case False
  from inv have "fmdom' (items c) = set ks" by (auto simp: lru_inv_def)
  with False have "key \<notin> fmdom' (items c)" by simp
  then have "fmlookup (items c) key = None" by (rule fmdom'_notD)
  with False inv show ?thesis by (simp add: Get_def)
next
  case key: True
  let ?l = "list c"
  from inv obtain xs where d: "dll ?l xs" and al: "root < elem_alloc ?l" "\<forall>x\<in>set xs. x < elem_alloc ?l"
    and ks: "map (elem_v ?l) xs = ks" and dist: "distinct ks" and dom: "fmdom' (items c) = set ks"
    and pair: "\<forall>x\<in>set xs. \<exists>v. fmlookup (items c) (elem_v ?l x) = Some (x, v)"
    and cp: "1 \<le> cap c" "int (length ks) \<le> cap c"
    by (auto simp: lru_inv_def)
  from key dom have "key \<in> fmdom' (items c)" by simp
  then obtain e old where lk: "fmlookup (items c) key = Some (e, old)"
    by (fastforce simp: fmlookup_dom'_iff)
  from lru_inv_lookup[OF d ks dist dom pair lk] obtain as bs where
    xs: "xs = as @ e # bs" and ve: "elem_v ?l e = key" by blast
  from dll_moveToFront[OF d[unfolded xs]] obtain l' where
    m: "moveToFront e ?l = Some l'" and d': "dll l' (e # as @ bs)"
    and v': "elem_v l' = elem_v ?l" and a': "elem_alloc l' = elem_alloc ?l" by blast
  let ?c' = "c\<lparr>list := l'\<rparr>"
  have run: "Get key c = Some (Some old, ?c')"
    using lk m by (simp add: Get_def)
  have k': "map (elem_v l') (e # as @ bs) = key # remove1 key ks"
    using ks dist ve by (auto simp: xs v' remove1_append)
  have "lru_inv ?c' (key # remove1 key ks)"
    unfolding lru_inv_def
  proof (intro exI[of _ "e # as @ bs"] conjI)
    show "dll (list ?c') (e # as @ bs)" using d' by simp
    show "root < elem_alloc (list ?c')" using al a' by simp
    show "\<forall>x\<in>set (e # as @ bs). x < elem_alloc (list ?c')" using al a' xs by auto
    show "map (elem_v (list ?c')) (e # as @ bs) = key # remove1 key ks" using k' by simp
    show "distinct (key # remove1 key ks)" using dist by auto
    show "fmdom' (items ?c') = set (key # remove1 key ks)" using dom key dist by auto
    show "\<forall>x\<in>set (e # as @ bs). \<exists>va. fmlookup (items ?c') (elem_v (list ?c') x) = Some (x, va)"
      using pair xs v' by auto
    show "1 \<le> cap ?c'" using cp by simp
    show "int (length (key # remove1 key ks)) \<le> cap ?c'"
      using cp key by (simp add: length_remove1)
  qed
  with run key show ?thesis by auto
qed

lemma remove_elem_inv:
  assumes d: "dll (list c) (as @ e # bs)"
    and al: "root < elem_alloc (list c)" "\<forall>x\<in>set (as @ e # bs). x < elem_alloc (list c)"
    and ks: "map (elem_v (list c)) (as @ e # bs) = ks" and dist: "distinct ks"
    and dom: "fmdom' (items c) = set ks"
    and pair: "\<forall>x\<in>set (as @ e # bs). \<exists>v. fmlookup (items c) (elem_v (list c) x) = Some (x, v)"
    and cp: "1 \<le> cap c" "int (length ks) \<le> cap c"
  shows "\<exists>l'. list_remove e (list c) = Some l'
     \<and> lru_inv (c\<lparr>items := fmdrop (elem_v (list c) e) (items c), list := l'\<rparr>)
          (remove1 (elem_v (list c) e) ks)"
proof -
  let ?l = "list c" and ?key = "elem_v (list c) e"
  from dll_list_remove[OF d] obtain l' where
    r: "list_remove e ?l = Some l'" and d': "dll l' (as @ bs)"
    and v': "elem_v l' = elem_v ?l" and a': "elem_alloc l' = elem_alloc ?l" by blast
  let ?c' = "c\<lparr>items := fmdrop ?key (items c), list := l'\<rparr>"
  have dk: "distinct (map (elem_v ?l) as @ ?key # map (elem_v ?l) bs)"
    using ks dist by simp
  then have "?key \<notin> set (map (elem_v ?l) as)" by auto
  then have "remove1 ?key (map (elem_v ?l) as @ ?key # map (elem_v ?l) bs) = map (elem_v ?l) (as @ bs)"
    by (simp add: remove1_append)
  then have k': "map (elem_v ?l) (as @ bs) = remove1 ?key ks"
    using ks by simp
  have other: "\<forall>x\<in>set as \<union> set bs. elem_v ?l x \<noteq> ?key"
  proof
    fix x assume "x \<in> set as \<union> set bs"
    then have "elem_v ?l x \<in> set (map (elem_v ?l) as @ map (elem_v ?l) bs)" by auto
    with dk show "elem_v ?l x \<noteq> ?key" by (rule distinct_mid_neq)
  qed
  have "lru_inv ?c' (remove1 ?key ks)"
    unfolding lru_inv_def
  proof (intro exI[of _ "as @ bs"] conjI)
    show "dll (list ?c') (as @ bs)" using d' by simp
    show "root < elem_alloc (list ?c')" using al a' by simp
    show "\<forall>x\<in>set (as @ bs). x < elem_alloc (list ?c')" using al a' by auto
    show "map (elem_v (list ?c')) (as @ bs) = remove1 ?key ks" using k' v' by simp
    show "distinct (remove1 ?key ks)" using dist by simp
    show "fmdom' (items ?c') = set (remove1 ?key ks)" using dom dist by auto
    show "\<forall>x\<in>set (as @ bs). \<exists>va. fmlookup (items ?c') (elem_v (list ?c') x) = Some (x, va)"
      using pair v' other by auto
    show "1 \<le> cap ?c'" using cp by simp
    show "int (length (remove1 ?key ks)) \<le> cap ?c'"
      using cp length_remove1[of ?key ks] by (auto split: if_splits)
  qed
  with r show ?thesis by auto
qed

lemma Remove_inv:
  assumes inv: "lru_inv c ks"
  shows "\<exists>r c'. Remove key c = Some (r, c') \<and> cap c' = cap c \<and> lru_inv c' (remove1 key ks)"
proof (cases "key \<in> set ks")
  case False
  from inv have "fmdom' (items c) = set ks" by (auto simp: lru_inv_def)
  with False have "key \<notin> fmdom' (items c)" by simp
  then have "fmlookup (items c) key = None" by (rule fmdom'_notD)
  with False inv show ?thesis
    by (intro exI[of _ False] exI[of _ c]) (simp add: Remove_def remove1_idem)
next
  case key: True
  let ?l = "list c"
  from inv obtain xs where d: "dll ?l xs" and al: "root < elem_alloc ?l" "\<forall>x\<in>set xs. x < elem_alloc ?l"
    and ks: "map (elem_v ?l) xs = ks" and dist: "distinct ks" and dom: "fmdom' (items c) = set ks"
    and pair: "\<forall>x\<in>set xs. \<exists>v. fmlookup (items c) (elem_v ?l x) = Some (x, v)"
    and cp: "1 \<le> cap c" "int (length ks) \<le> cap c"
    by (auto simp: lru_inv_def)
  from key dom have "key \<in> fmdom' (items c)" by simp
  then obtain e old where lk: "fmlookup (items c) key = Some (e, old)"
    by (fastforce simp: fmlookup_dom'_iff)
  from lru_inv_lookup[OF d ks dist dom pair lk] obtain as bs where
    xs: "xs = as @ e # bs" and ve: "elem_v ?l e = key" by blast
  from remove_elem_inv[OF d[unfolded xs] al(1) al(2)[unfolded xs] ks[unfolded xs] dist dom pair[unfolded xs] cp]
  obtain l' where r: "list_remove e ?l = Some l'"
    and i: "lru_inv (c\<lparr>items := fmdrop (elem_v ?l e) (items c), list := l'\<rparr>) (remove1 (elem_v ?l e) ks)"
    by blast
  have "Remove key c = Some (True, c\<lparr>items := fmdrop key (items c), list := l'\<rparr>)"
    using lk r by (simp add: Remove_def)
  with i ve show ?thesis by auto
qed

lemma RemoveOldest_inv:
  assumes inv: "lru_inv c ks"
  shows "\<exists>r c'. RemoveOldest c = Some (r, c') \<and> cap c' = cap c \<and> lru_inv c' (butlast ks)"
proof -
  let ?l = "list c"
  from inv obtain xs where d: "dll ?l xs" and al: "root < elem_alloc ?l" "\<forall>x\<in>set xs. x < elem_alloc ?l"
    and ks: "map (elem_v ?l) xs = ks" and dist: "distinct ks" and dom: "fmdom' (items c) = set ks"
    and pair: "\<forall>x\<in>set xs. \<exists>v. fmlookup (items c) (elem_v ?l x) = Some (x, v)"
    and cp: "1 \<le> cap c" "int (length ks) \<le> cap c"
    by (auto simp: lru_inv_def)
  show ?thesis
  proof (cases xs rule: rev_cases)
    case Nil
    with dll_list_last[OF d] ks inv show ?thesis by (auto simp: RemoveOldest_def)
  next
    case (snoc ys y)
    have lst: "list_last ?l = Some y" using dll_list_last[OF d] snoc by simp
    have xs: "xs = ys @ y # []" using snoc by simp
    from remove_elem_inv[OF d[unfolded xs] al(1) al(2)[unfolded xs] ks[unfolded xs] dist dom pair[unfolded xs] cp]
    obtain l' where r: "list_remove y ?l = Some l'"
      and i: "lru_inv (c\<lparr>items := fmdrop (elem_v ?l y) (items c), list := l'\<rparr>) (remove1 (elem_v ?l y) ks)"
      by blast
    have "remove1 (elem_v ?l y) ks = butlast ks"
      using ks dist by (auto simp: xs remove1_append)
    with i lst r show ?thesis by (auto simp: RemoveOldest_def Let_def)
  qed
qed

lemma Purge_inv:
  assumes inv: "lru_inv c ks"
  shows "lru_inv (Purge c) [] \<and> cap (Purge c) = cap c"
proof -
  from inv have "root < elem_alloc (list c)" "1 \<le> cap c" by (auto simp: lru_inv_def)
  then show ?thesis
    by (auto simp: lru_inv_def Purge_def Let_def dll_list_init intro!: exI[of _ "[]"])
       (simp add: list_init_def Let_def)
qed

lemma lru_step_inv:
  assumes "lru_inv c ks"
  shows "\<exists>c'. lru_step x c = Some c' \<and> lru_inv c' (recency_step (cap c) x ks) \<and> cap c' = cap c"
proof (cases x)
  case (Op_Add key v)
  consider "key \<in> set ks" | "key \<notin> set ks" "cap c \<le> int (length ks)" | "key \<notin> set ks" "int (length ks) < cap c"
    by linarith
  then show ?thesis
  proof cases
    case 1
    with Add_present[OF assms 1, of v] Op_Add show ?thesis by auto
  next
    case 2
    with Add_absent_full[OF assms 2, of v] Op_Add show ?thesis by auto
  next
    case 3
    with Add_absent_room[OF assms 3, of v] Op_Add show ?thesis by auto
  qed
next
  case (Op_Get key)
  with Get_inv[OF assms, of key] show ?thesis by auto
next
  case (Op_Peek key)
  with assms show ?thesis by simp
next
  case (Op_Remove key)
  with Remove_inv[OF assms, of key] show ?thesis by auto
next
  case Op_RemoveOldest
  with RemoveOldest_inv[OF assms] show ?thesis by auto
next
  case Op_Purge
  with Purge_inv[OF assms] show ?thesis by simp
qed

lemma lru_run_inv:
  assumes "lru_inv c ks"
  shows "\<exists>c'. lru_run ops c = Some c' \<and> lru_inv c' (recency (cap c) ops ks) \<and> cap c' = cap c"
  using assms
proof (induction ops arbitrary: c ks)
  case Nil
  then show ?case by simp
next
  case (Cons x ops)
  from lru_step_inv[OF Cons.prems, of x] obtain c1 where
    s: "lru_step x c = Some c1" "lru_inv c1 (recency_step (cap c) x ks)" "cap c1 = cap c" by blast
  from Cons.IH[OF s(2)] s(1,3) show ?case by simp
qed

lemma cap_New: "cap (NewBasicLRU capacity) = max capacity 1"
  by (simp add: NewBasicLRU_def Let_def)

lemma lru_run_New:
  "\<exists>c. lru_run ops (NewBasicLRU capacity) = Some c \<and> cap c = max capacity 1
     \<and> lru_inv c (recency (max capacity 1) ops [])"
  using lru_run_inv[OF lru_inv_New, of ops capacity] by (auto simp: cap_New)

section \<open>The LRU container: the claims\<close>

subsection \<open>C6: the order of \<open>Keys\<close>\<close>

text \<open>
  Claim C6, with the order as the code has it. After every run of operations on a new
  container, \<open>Keys\<close> returns the keys of all current entries, the least recently used
  key first and the most recently used key last: the reverse of the recency order
  (\<open>appendTo\<close> starts at \<open>root.prev\<close>, the tail, and follows \<open>prev\<close>, while \<open>pushElem\<close>
  inserts behind \<open>root.next\<close>).
\<close>

theorem Keys_least_recent_first:
  "\<exists>c. lru_run ops (NewBasicLRU capacity) = Some c
     \<and> Keys c = Some (rev (recency (max capacity 1) ops []))
     \<and> set (recency (max capacity 1) ops []) = fmdom' (items c)"
proof -
  from lru_run_New[of ops capacity] obtain c :: "('a, 'b) BasicLRU" where
    c: "lru_run ops (NewBasicLRU capacity) = Some c"
    "lru_inv c (recency (max capacity 1) ops [])" by blast
  from c(2) have "Keys c = Some (rev (recency (max capacity 1) ops []))" by (rule lru_inv_Keys)
  moreover from c(2) have "set (recency (max capacity 1) ops []) = fmdom' (items c)"
    by (auto simp: lru_inv_def)
  ultimately show ?thesis using c(1) by blast
qed

text \<open>
  C6 as stated, most recently used key first, fails after \<open>Add(1)\<close> and \<open>Add(2)\<close>:
  \<open>Keys\<close> returns \<open>[1, 2]\<close>, and the most recently used key is 2.
\<close>

theorem Keys_not_most_recent_first:
  "lru_run [Op_Add (1 :: nat) (10 :: nat), Op_Add 2 20] (NewBasicLRU 2) \<bind> Keys = Some [1, 2]
   \<and> recency 2 [Op_Add (1 :: nat) (10 :: nat), Op_Add 2 20] [] = [2, 1]"
proof -
  let ?ops = "[Op_Add (1 :: nat) (10 :: nat), Op_Add 2 20]"
  from lru_run_New[of ?ops 2] obtain c where
    c: "lru_run ?ops (NewBasicLRU 2) = Some c" "lru_inv c (recency (max 2 1) ?ops [])" by blast
  have r: "recency 2 ?ops [] = [2, 1]" by simp
  from lru_inv_Keys[OF c(2)] r have "Keys c = Some [1, 2]" by simp
  with c(1) r show ?thesis by simp
qed

subsection \<open>C7: the container never exceeds its capacity\<close>

text \<open>
  Claim C7. For every requested capacity (a capacity \<open>\<le> 0\<close> becomes 1) and every
  sequence of \<open>Add\<close>, \<open>Get\<close>, \<open>Peek\<close>, \<open>Remove\<close>, \<open>RemoveOldest\<close> and \<open>Purge\<close> on a
  new container, the run does not panic, and after every step of it (after the first
  \<open>n\<close> operations, for every \<open>n\<close>) \<open>Len\<close> is at most \<open>max capacity 1\<close>.
\<close>

theorem Len_within_capacity:
  "(\<forall>n. \<exists>c. lru_run (take n (ops :: ('k::zero, 'v) lru_op list)) (NewBasicLRU capacity) = Some c
        \<and> Len c \<le> max capacity 1)
   \<and> cap (NewBasicLRU capacity :: ('k, 'v) BasicLRU) = max capacity 1"
proof (intro conjI allI)
  fix n
  from lru_run_New[of "take n ops" capacity] obtain c :: "('k, 'v) BasicLRU" where
    c: "lru_run (take n ops) (NewBasicLRU capacity) = Some c" "cap c = max capacity 1"
    "lru_inv c (recency (max capacity 1) (take n ops) [])" by blast
  from c(3) have "Len c = int (length (recency (max capacity 1) (take n ops) []))"
    by (rule lru_inv_Len)
  moreover from c(3) have "int (length (recency (max capacity 1) (take n ops) [])) \<le> cap c"
    by (auto simp: lru_inv_def)
  ultimately show "\<exists>c. lru_run (take n ops) (NewBasicLRU capacity) = Some c \<and> Len c \<le> max capacity 1"
    using c(1,2) by auto
next
  show "cap (NewBasicLRU capacity :: ('k, 'v) BasicLRU) = max capacity 1" by (rule cap_New)
qed

end
